theory Spec2Isabelle
  imports Complex_Main "HOL-Library.Sublist" "HOL-Library.Word"
begin

unbundle bit_operations_syntax

section \<open>LocalSeal: strings and the OCR / NLP data model\<close>

text \<open>
  A JavaScript string is a sequence of UTF-16 code units; a code unit is modelled as a
  natural number. Identifiers of the program itself (entity kinds, progress steps) are
  plain ASCII and are kept as HOL strings.
\<close>

type_synonym jsstring = "nat list"

definition js :: "string \<Rightarrow> jsstring" where
  "js s = map of_char s"

record bbox =
  x0 :: int
  y0 :: int
  x1 :: int
  y1 :: int

text \<open>A word as \<open>OCRService.extractText\<close> returns it: \<open>{text, confidence, bbox, baseline}\<close>.\<close>

record ocrWord =
  w_text :: jsstring
  w_confidence :: rat
  w_bbox :: bbox
  w_baseline :: "bbox option"

text \<open>An entity or sensitive match of \<open>NLPProcessor\<close>: \<open>{type, text, offset, length}\<close>.\<close>

record textSpan =
  s_type :: string
  s_text :: jsstring
  s_offset :: int
  s_length :: nat

record nlpResult =
  entities :: "textSpan list"
  sensitive :: "textSpan list"
  total :: "nat option"

text \<open>An element of \<open>boxesToBlur\<close>: \<open>{bbox, type, text, confidence}\<close>.\<close>

record blurBox =
  b_bbox :: bbox
  b_type :: string
  b_text :: jsstring
  b_confidence :: rat

section \<open>NLPProcessor: normalisation and word mapping\<close>

text \<open>The character class \<open>[\u0300-\u036f]\<close> (combining diacritical marks).\<close>

definition isCombiningMark :: "nat \<Rightarrow> bool" where
  "isCombiningMark c = (768 \<le> c \<and> c \<le> 879)"

text \<open>The class \<open>\w\<close> of a regular expression without the unicode flag: \<open>[A-Za-z0-9_]\<close>.\<close>

definition isWordChar :: "nat \<Rightarrow> bool" where
  "isWordChar c = ((65 \<le> c \<and> c \<le> 90) \<or> (97 \<le> c \<and> c \<le> 122) \<or> (48 \<le> c \<and> c \<le> 57) \<or> c = 95)"

text \<open>The class \<open>\s\<close>: ECMAScript white space and line terminators.\<close>

definition isWhiteSpace :: "nat \<Rightarrow> bool" where
  "isWhiteSpace c = (c \<in> {9, 10, 11, 12, 13, 32, 160, 5760, 8232, 8233, 8239, 8287, 12288, 65279}
     \<or> (8192 \<le> c \<and> c \<le> 8202))"

text \<open>
  \<open>_normalize(str)\<close>:
  \<^verbatim>\<open>str.toLowerCase().normalize('NFD').replace(/[\u0300-\u036f]/g, '').replace(/[^\w\s]/g, '')\<close>.
  The two built-ins of the runtime, \<open>String.prototype.toLowerCase\<close> and
  \<open>String.prototype.normalize('NFD')\<close>, are parameters; the two replacements are the
  program's own and are written out.
\<close>

definition normalize_priv :: "(jsstring \<Rightarrow> jsstring) \<Rightarrow> (jsstring \<Rightarrow> jsstring) \<Rightarrow> jsstring \<Rightarrow> jsstring" where
  "normalize_priv toLowerCase normalizeNFD str =
     filter (\<lambda>c. isWordChar c \<or> isWhiteSpace c)
       (filter (\<lambda>c. \<not> isCombiningMark c) (normalizeNFD (toLowerCase str)))"

text \<open>
  The built-ins on strings of ASCII code units: \<open>toLowerCase\<close> maps \<open>A\<close>..\<open>Z\<close> to
  \<open>a\<close>..\<open>z\<close> and canonical decomposition changes nothing. Both are used for concrete
  ASCII inputs only.
\<close>

definition toLowerCase_ascii :: "jsstring \<Rightarrow> jsstring" where
  "toLowerCase_ascii s = map (\<lambda>c. if 65 \<le> c \<and> c \<le> 90 then c + 32 else c) s"

definition normalizeNFD_ascii :: "jsstring \<Rightarrow> jsstring" where
  "normalizeNFD_ascii s = s"

text \<open>\<open>s.includes(t)\<close>: \<open>t\<close> occurs in \<open>s\<close> as a contiguous run of code units.\<close>

definition str_includes :: "jsstring \<Rightarrow> jsstring \<Rightarrow> bool" where
  "str_includes s t = sublist t s"

text \<open>The box pushed for a word under a target.\<close>

definition boxOf :: "textSpan \<Rightarrow> ocrWord \<Rightarrow> blurBox" where
  "boxOf entity word =
     \<lparr>b_bbox = w_bbox word, b_type = s_type entity, b_text = w_text word,
      b_confidence = w_confidence word\<rparr>"

text \<open>
  \<open>mapEntitiesToWords(nlpResult, ocrWords)\<close>: two nested \<open>forEach\<close> loops pushing onto
  \<open>boxesToBlur\<close>; each loop is a left fold over the array, the accumulator is the array
  of boxes pushed so far.
\<close>

definition mapWord :: "(jsstring \<Rightarrow> jsstring) \<Rightarrow> (jsstring \<Rightarrow> jsstring) \<Rightarrow> textSpan \<Rightarrow> jsstring
    \<Rightarrow> blurBox list \<Rightarrow> ocrWord \<Rightarrow> blurBox list" where
  "mapWord lc nfd entity normalizedEntity boxesToBlur word =
     (let normalizedWord = normalize_priv lc nfd (w_text word)
      in if str_includes normalizedEntity normalizedWord
         then boxesToBlur @ [boxOf entity word]
         else boxesToBlur)"

definition mapEntity :: "(jsstring \<Rightarrow> jsstring) \<Rightarrow> (jsstring \<Rightarrow> jsstring) \<Rightarrow> ocrWord list
    \<Rightarrow> blurBox list \<Rightarrow> textSpan \<Rightarrow> blurBox list" where
  "mapEntity lc nfd ocrWords boxesToBlur entity =
     (let normalizedEntity = normalize_priv lc nfd (s_text entity)
      in foldl (mapWord lc nfd entity normalizedEntity) boxesToBlur ocrWords)"

definition mapEntitiesToWords :: "(jsstring \<Rightarrow> jsstring) \<Rightarrow> (jsstring \<Rightarrow> jsstring) \<Rightarrow> nlpResult
    \<Rightarrow> ocrWord list \<Rightarrow> blurBox list" where
  "mapEntitiesToWords lc nfd nlp ocrWords =
     (let allTargets = entities nlp @ sensitive nlp
      in foldl (mapEntity lc nfd ocrWords) [] allTargets)"

text \<open>Test data: a word and a target with the given ASCII text.\<close>

definition wordOf :: "string \<Rightarrow> ocrWord" where
  "wordOf t = \<lparr>w_text = js t, w_confidence = 90, w_bbox = \<lparr>x0 = 0, y0 = 0, x1 = 2, y1 = 1\<rparr>,
     w_baseline = None\<rparr>"

definition spanOf :: "string \<Rightarrow> string \<Rightarrow> textSpan" where
  "spanOf k t = \<lparr>s_type = k, s_text = js t, s_offset = 0, s_length = length t\<rparr>"



section \<open>SecurityManager: license keys\<close>

subsection \<open>Numbers and strings of the runtime\<close>

text \<open>
  \<open>ToInt32\<close>: the conversion every bitwise operator applies to its operands. All numbers
  of the checksum loop are integers far below \<open>2^53\<close>, so the double arithmetic of the
  runtime is exact on them and they are modelled as \<open>int\<close>.
\<close>

definition toInt32 :: "int \<Rightarrow> int" where
  "toInt32 x = (x + 2 ^ 31) mod 2 ^ 32 - 2 ^ 31"

text \<open>\<open>a << n\<close> and \<open>a & b\<close> on numbers.\<close>

definition shiftLeft :: "int \<Rightarrow> nat \<Rightarrow> int" where
  "shiftLeft a n = toInt32 (toInt32 a * 2 ^ (n mod 32))"

definition bitAnd :: "int \<Rightarrow> int \<Rightarrow> int" where
  "bitAnd a b = toInt32 a AND toInt32 b"

text \<open>
  \<open>Number.prototype.toString(16)\<close> on a non-negative integer: lower-case hexadecimal
  digits, no leading zero.
\<close>

definition hexDigit :: "nat \<Rightarrow> nat" where
  "hexDigit d = (if d < 10 then 48 + d else 87 + d)"

function toString16 :: "nat \<Rightarrow> jsstring" where
  "toString16 n = (if n < 16 then [hexDigit n] else toString16 (n div 16) @ [hexDigit (n mod 16)])"
  by pat_completeness auto
termination
  by (relation "measure (\<lambda>n. n)") auto

declare toString16.simps [simp del]

text \<open>\<open>toUpperCase\<close> on a string of ASCII code units.\<close>

definition toUpperCase_ascii :: "jsstring \<Rightarrow> jsstring" where
  "toUpperCase_ascii s = map (\<lambda>c. if 97 \<le> c \<and> c \<le> 122 then c - 32 else c) s"

text \<open>\<open>s.padStart(n, fill)\<close> with a one-character fill, and \<open>s.slice(-n)\<close>.\<close>

definition padStart :: "nat \<Rightarrow> nat \<Rightarrow> jsstring \<Rightarrow> jsstring" where
  "padStart n fill s = replicate (n - length s) fill @ s"

definition sliceLast :: "nat \<Rightarrow> jsstring \<Rightarrow> jsstring" where
  "sliceLast n s = drop (length s - n) s"

text \<open>\<open>s.split(sep)\<close> with a one-character separator, and \<open>parts.join(sep)\<close>.\<close>

fun split :: "nat \<Rightarrow> jsstring \<Rightarrow> jsstring list" where
  "split sep [] = [[]]"
| "split sep (c # cs) =
     (if c = sep then [] # split sep cs
      else (case split sep cs of [] \<Rightarrow> [[c]] | p # ps \<Rightarrow> (c # p) # ps))"

fun join :: "nat \<Rightarrow> jsstring list \<Rightarrow> jsstring" where
  "join sep [] = []"
| "join sep [p] = p"
| "join sep (p # q # ps) = p @ sep # join sep (q # ps)"

text \<open>
  \<open>parseInt(s, 16)\<close>: leading white space is skipped, then an optional sign, then an
  optional \<open>0x\<close> or \<open>0X\<close>; the longest run of hexadecimal digits that follows is the
  value, and \<open>NaN\<close> (here \<open>None\<close>) when that run is empty.
\<close>

definition hexValue :: "nat \<Rightarrow> nat option" where
  "hexValue c =
     (if 48 \<le> c \<and> c \<le> 57 then Some (c - 48)
      else if 65 \<le> c \<and> c \<le> 70 then Some (c - 55)
      else if 97 \<le> c \<and> c \<le> 102 then Some (c - 87)
      else None)"

fun hexRun :: "nat \<Rightarrow> jsstring \<Rightarrow> nat" where
  "hexRun acc [] = acc"
| "hexRun acc (c # cs) = (case hexValue c of None \<Rightarrow> acc | Some d \<Rightarrow> hexRun (acc * 16 + d) cs)"

definition stripHexPrefix :: "jsstring \<Rightarrow> jsstring" where
  "stripHexPrefix s =
     (case s of a # b # rest \<Rightarrow> if a = 48 \<and> (b = 120 \<or> b = 88) then rest else s | _ \<Rightarrow> s)"

definition parseInt16 :: "jsstring \<Rightarrow> int option" where
  "parseInt16 str =
     (let s = dropWhile isWhiteSpace str;
          negative = (case s of c # _ \<Rightarrow> c = 45 | [] \<Rightarrow> False);
          s1 = (case s of c # cs \<Rightarrow> if c = 43 \<or> c = 45 then cs else s | [] \<Rightarrow> s);
          s2 = stripHexPrefix s1
      in case s2 of
           [] \<Rightarrow> None
         | c # _ \<Rightarrow> (case hexValue c of
               None \<Rightarrow> None
             | Some _ \<Rightarrow> Some (if negative then - int (hexRun 0 s2) else int (hexRun 0 s2))))"

text \<open>
  Arithmetic and comparison with a possible \<open>NaN\<close>: a difference with \<open>NaN\<close> is
  \<open>NaN\<close>, and every comparison with \<open>NaN\<close> is false.
\<close>

definition numSub :: "int option \<Rightarrow> int option \<Rightarrow> int option" where
  "numSub a b = (case (a, b) of (Some x, Some y) \<Rightarrow> Some (x - y) | _ \<Rightarrow> None)"

definition numLess :: "int option \<Rightarrow> int option \<Rightarrow> bool" where
  "numLess a b = (case (a, b) of (Some x, Some y) \<Rightarrow> x < y | _ \<Rightarrow> False)"

subsection \<open>The state: \<open>localStorage\<close> and \<open>licenseStatus\<close>\<close>

text \<open>\<open>Infinity\<close> or a finite count.\<close>

datatype limit = Finite nat | Infinity

record licenseStatus =
  isPro :: bool
  expirationDate :: "int option"
  maxFilesPerDay :: limit
  remainingFiles :: limit
  maxFileSize :: limit
  licenseKey :: "jsstring option"

text \<open>The item \<open>localseal_license\<close>: \<open>{key, expirationDate, isPro}\<close>.\<close>

record storedLicense =
  sl_key :: jsstring
  sl_expirationDate :: int
  sl_isPro :: bool

text \<open>
  The items of \<open>localStorage\<close> the license code reads and writes, each absent
  (\<open>None\<close>) or holding the value whose JSON text is stored.
\<close>

record localStorage =
  localseal_license :: "storedLicense option"
  localseal_used_keys :: "jsstring list option"

record securityManager =
  status :: licenseStatus
  storage :: localStorage

subsection \<open>\<open>_validateLicenseKey\<close> and \<open>activateLicense\<close>\<close>

definition SALT :: jsstring where
  "SALT = js ''LocalSeal_V2_Secret_Salt_2026''"

text \<open>The pattern \<open>/^[A-Z0-9]{4}-[A-Z0-9]{4}-[A-Z0-9]{4}-[A-Z0-9]{4}$/\<close>.\<close>

definition isKeyChar :: "nat \<Rightarrow> bool" where
  "isKeyChar c = ((65 \<le> c \<and> c \<le> 90) \<or> (48 \<le> c \<and> c \<le> 57))"

definition isGroup :: "jsstring \<Rightarrow> bool" where
  "isGroup g = (length g = 4 \<and> list_all isKeyChar g)"

definition keyFormat :: "jsstring \<Rightarrow> bool" where
  "keyFormat key =
     (length key = 19
      \<and> isGroup (take 4 key) \<and> key ! 4 = 45
      \<and> isGroup (take 4 (drop 5 key)) \<and> key ! 9 = 45
      \<and> isGroup (take 4 (drop 10 key)) \<and> key ! 14 = 45
      \<and> isGroup (take 4 (drop 15 key)))"

text \<open>
  The checksum loop:
  \<^verbatim>\<open>hash = ((hash << 5) - hash) + char; hash = hash & hash;\<close> for each code unit.
\<close>

definition hashStep :: "int \<Rightarrow> nat \<Rightarrow> int" where
  "hashStep hash char =
     (let hash1 = (shiftLeft hash 5 - hash) + int char
      in bitAnd hash1 hash1)"

definition hashLoop :: "jsstring \<Rightarrow> int" where
  "hashLoop input = foldl hashStep 0 input"

text \<open>
  \<^verbatim>\<open>Math.abs(hash).toString(16).toUpperCase().padStart(4, '0').slice(-4)\<close>
\<close>

definition calculatedCheck :: "int \<Rightarrow> jsstring" where
  "calculatedCheck hash =
     sliceLast 4 (padStart 4 48 (toUpperCase_ascii (toString16 (nat \<bar>hash\<bar>))))"

text \<open>
  \<^verbatim>\<open>JSON.parse(localStorage.getItem('localseal_used_keys') || '[]')\<close>: the stored array,
  the empty array when the item is absent.
\<close>

definition usedKeysOf :: "localStorage \<Rightarrow> jsstring list" where
  "usedKeysOf ls = (case localseal_used_keys ls of None \<Rightarrow> [] | Some ks \<Rightarrow> ks)"

text \<open>
  \<open>_validateLicenseKey(key)\<close>. \<open>now\<close> is the value of \<open>Date.now()\<close>; the result is the
  boolean returned and \<open>localStorage\<close> as the call leaves it. The indices \<open>parts[1]\<close> and
  \<open>parts[3]\<close> are read only after the pattern has matched, when \<open>parts\<close> has four elements.
\<close>

definition validateLicenseKey_priv :: "int \<Rightarrow> localStorage \<Rightarrow> jsstring \<Rightarrow> bool \<times> localStorage" where
  "validateLicenseKey_priv now ls key =
     (if \<not> keyFormat key then (False, ls)
      else
        let parts = split 45 key;
            payload = join 45 (take 3 parts);
            check = parts ! 3;
            timeCodeHex = parts ! 1;
            hash = hashLoop (payload @ SALT)
        in if check \<noteq> calculatedCheck hash then (False, ls)
        else
          let keyMinutes = parseInt16 timeCodeHex;
              currentMinutes = Some (now div 60000);
              diff = numSub currentMinutes keyMinutes
          in if numLess diff (Some 0) \<or> numLess (Some 5) diff then (False, ls)
          else
            let usedKeys = usedKeysOf ls
            in if key \<in> set usedKeys then (False, ls)
               else (True, ls\<lparr>localseal_used_keys := Some (usedKeys @ [key])\<rparr>))"

text \<open>
  \<open>activateLicense(licenseKey)\<close>, the body of the timer callback. \<open>now\<close> is the clock
  read by the validation, \<open>now'\<close> the clock read for the expiration date.
\<close>

definition activateLicense :: "int \<Rightarrow> int \<Rightarrow> securityManager \<Rightarrow> jsstring \<Rightarrow> bool \<times> securityManager" where
  "activateLicense now now' sm key =
     (case validateLicenseKey_priv now (storage sm) key of
        (True, ls) \<Rightarrow>
          (let expiration = now' + 365 * 24 * 60 * 60 * 1000;
               license = \<lparr>sl_key = key, sl_expirationDate = expiration, sl_isPro = True\<rparr>
           in (True, \<lparr>status = \<lparr>isPro = True, expirationDate = Some expiration,
                                  maxFilesPerDay = Infinity, remainingFiles = Infinity,
                                  maxFileSize = Infinity, licenseKey = Some key\<rparr>,
                      storage = ls\<lparr>localseal_license := Some license\<rparr>\<rparr>))
      | (False, ls) \<Rightarrow> (False, sm\<lparr>storage := ls\<rparr>))"

text \<open>The manager as its constructor leaves it, over a given \<open>localStorage\<close>.\<close>

definition newSecurityManager :: "localStorage \<Rightarrow> securityManager" where
  "newSecurityManager ls =
     \<lparr>status = \<lparr>isPro = False, expirationDate = None, maxFilesPerDay = Finite 5,
                 remainingFiles = Finite 5, maxFileSize = Finite (2 * 1024 * 1024),
                 licenseKey = None\<rparr>,
      storage = ls\<rparr>"

subsection \<open>The checksum, from the specification's words\<close>

text \<open>
  The rolling hash \<open>hash = hash * 31 + charCode\<close> on 32-bit integers that wrap around,
  starting from 0; its value is read as a signed integer.
\<close>

definition specHash :: "jsstring \<Rightarrow> 32 word" where
  "specHash input = foldl (\<lambda>h c. h * 31 + of_nat c) 0 input"

text \<open>Upper-case hexadecimal digits, and the last four of them, zero-padded.\<close>

definition upperHexDigit :: "nat \<Rightarrow> nat" where
  "upperHexDigit d = (if d < 10 then 48 + d else 55 + d)"

text \<open>\<^verbatim>\<open>n.toString(16).toUpperCase()\<close> in one.\<close>

definition upperHex :: "nat \<Rightarrow> jsstring" where
  "upperHex n = toUpperCase_ascii (toString16 n)"

definition specCheck :: "jsstring \<Rightarrow> jsstring" where
  "specCheck input =
     (let a = nat \<bar>sint (specHash input)\<bar>
      in [upperHexDigit (a div 4096 mod 16), upperHexDigit (a div 256 mod 16),
          upperHexDigit (a div 16 mod 16), upperHexDigit (a mod 16)])"

subsection \<open>The three checks after the pattern, one by one\<close>

text \<open>
  The conditions \<open>_validateLicenseKey\<close> tests in turn once the pattern has matched, each
  as a function of its own: the comparison of \<open>parts[3]\<close> with the recomputed checksum,
  the test on \<open>diff\<close>, and the look-up and update of \<open>localseal_used_keys\<close>.
\<close>

definition checksumPasses :: "jsstring \<Rightarrow> bool" where
  "checksumPasses key =
     (let parts = split 45 key
      in parts ! 3 = calculatedCheck (hashLoop (join 45 (take 3 parts) @ SALT)))"

definition timeWindowPasses :: "int \<Rightarrow> jsstring \<Rightarrow> bool" where
  "timeWindowPasses now timeCodeHex =
     (let diff = numSub (Some (now div 60000)) (parseInt16 timeCodeHex)
      in \<not> (numLess diff (Some 0) \<or> numLess (Some 5) diff))"

definition replayStep :: "localStorage \<Rightarrow> jsstring \<Rightarrow> bool \<times> localStorage" where
  "replayStep ls key =
     (if key \<in> set (usedKeysOf ls) then (False, ls)
      else (True, ls\<lparr>localseal_used_keys := Some (usedKeysOf ls @ [key])\<rparr>))"

text \<open>Test data: an empty \<open>localStorage\<close>.\<close>

definition emptyStorage :: localStorage where
  "emptyStorage = \<lparr>localseal_license = None, localseal_used_keys = None\<rparr>"


section \<open>ImageService: the canvas and the pixelation\<close>

subsection \<open>The canvas of the runtime\<close>

type_synonym byte = "8 word"

text \<open>
  An \<open>ImageData\<close>: \<open>{width, height, data}\<close>, \<open>data\<close> a \<open>Uint8ClampedArray\<close> of
  \<open>4 * width * height\<close> bytes, RGBA, row by row.
\<close>

record imageData =
  width :: nat
  height :: nat
  data :: "byte list"

text \<open>
  The bitmap of the canvas \<open>this.ctx\<close> draws on, in the same layout. The bitmap holds
  premultiplied colour: the red, green and blue bytes of a pixel are stored multiplied by
  its alpha over 255. \<open>cv_limit\<close> is the size in bytes of the largest \<open>ImageData\<close> the
  runtime allocates.
\<close>

record canvas =
  cv_width :: nat
  cv_height :: nat
  cv_pixels :: "byte list"
  cv_limit :: nat

datatype imageError = CanvasNotInitialised | TypeError | IndexSizeError | RangeError

text \<open>
  Reading and writing a typed array: a read outside the array is \<open>undefined\<close>, which a
  later write into a \<open>Uint8ClampedArray\<close> stores as 0; a write outside the array is ignored
  (as \<open>xs[i := v]\<close> is).
\<close>

definition rd :: "byte list \<Rightarrow> nat \<Rightarrow> byte" where
  "rd xs i = (if i < length xs then xs ! i else 0)"

text \<open>
  The conversion of a colour byte to and from its premultiplied form, for the alpha \<open>a\<close>
  of its pixel, each rounded to the nearest integer: \<open>c * a / 255\<close> on writing,
  \<open>p * 255 / a\<close> on reading (0 when the pixel is fully transparent, at most 255).
\<close>

definition premultiply :: "byte \<Rightarrow> byte \<Rightarrow> byte" where
  "premultiply a c = of_nat ((unat c * unat a * 2 + 255) div 510)"

definition unpremultiply :: "byte \<Rightarrow> byte \<Rightarrow> byte" where
  "unpremultiply a p =
     (if a = 0 then 0 else of_nat (min 255 ((unat p * 510 + unat a) div (2 * unat a))))"

text \<open>
  Channel \<open>k\<close> of the canvas pixel at \<open>(x, y)\<close> as \<open>getImageData\<close> returns it: the alpha
  byte as stored, a colour byte converted back from its premultiplied form; outside the
  bitmap a pixel reads as transparent black.
\<close>

definition canvasPixel :: "canvas \<Rightarrow> int \<Rightarrow> int \<Rightarrow> nat \<Rightarrow> byte" where
  "canvasPixel c x y k =
     (if 0 \<le> x \<and> x < int (cv_width c) \<and> 0 \<le> y \<and> y < int (cv_height c)
      then let j = (nat y * cv_width c + nat x) * 4
           in if k = 3 then rd (cv_pixels c) (j + 3)
              else unpremultiply (rd (cv_pixels c) (j + 3)) (rd (cv_pixels c) (j + k))
      else 0)"

text \<open>
  \<open>ctx.getImageData(sx, sy, sw, sh)\<close>. The four arguments are \<open>[EnforceRange] long\<close>: a
  value outside the signed 32-bit range is a \<open>TypeError\<close>. Then an \<open>IndexSizeError\<close> when
  \<open>sw\<close> or \<open>sh\<close> is zero, and a \<open>RangeError\<close> when the image data cannot be allocated.
  Otherwise the result holds the pixels of the rectangle with corners \<open>(sx, sy)\<close> and
  \<open>(sx + sw, sy + sh)\<close>, of width \<open>|sw|\<close> and height \<open>|sh|\<close>. The canvas is drawn by
  \<open>initCanvas\<close> from an image loaded through a blob URL of the file, so it is origin-clean
  and there is no \<open>SecurityError\<close>.
\<close>

definition inLongRange :: "int \<Rightarrow> bool" where
  "inLongRange v = (- (2 ^ 31) \<le> v \<and> v < 2 ^ 31)"

definition getImageData :: "canvas \<Rightarrow> int \<Rightarrow> int \<Rightarrow> int \<Rightarrow> int \<Rightarrow> imageError + imageData" where
  "getImageData c sx sy sw sh =
     (if inLongRange sx \<and> inLongRange sy \<and> inLongRange sw \<and> inLongRange sh
      then
        if sw = 0 \<or> sh = 0 then Inl IndexSizeError
        else
          let left = min sx (sx + sw); top = min sy (sy + sh);
              w = nat \<bar>sw\<bar>; h = nat \<bar>sh\<bar>
          in if w * h * 4 \<le> cv_limit c
             then Inr \<lparr>width = w, height = h,
                       data = map (\<lambda>i. canvasPixel c (left + int (i div 4 mod w))
                                          (top + int (i div 4 div w)) (i mod 4))
                                [0..<w * h * 4]\<rparr>
             else Inl RangeError
      else Inl TypeError)"

text \<open>
  \<open>ctx.putImageData(imageData, dx, dy)\<close>: every pixel of the image data is written to the
  canvas at its place shifted by \<open>(dx, dy)\<close>, its colour bytes premultiplied by its alpha;
  pixels that fall outside the bitmap are dropped. \<open>blurRegions\<close> calls it with the
  \<open>dx\<close> and \<open>dy\<close> that \<open>getImageData\<close> has just accepted, so its own range check on them
  cannot fail there.
\<close>

definition putImageData :: "canvas \<Rightarrow> imageData \<Rightarrow> int \<Rightarrow> int \<Rightarrow> canvas" where
  "putImageData c img dx dy =
     c\<lparr>cv_pixels :=
         map (\<lambda>j. let q = int (j div 4 mod cv_width c) - dx;
                       r = int (j div 4 div cv_width c) - dy
                   in if 0 \<le> q \<and> q < int (width img) \<and> 0 \<le> r \<and> r < int (height img)
                      then let i = (nat r * width img + nat q) * 4
                           in if j mod 4 = 3 then rd (data img) (i + 3)
                              else premultiply (rd (data img) (i + 3)) (rd (data img) (i + j mod 4))
                      else cv_pixels c ! j)
             [0..<length (cv_pixels c)]\<rparr>"

subsection \<open>\<open>_pixelate\<close>\<close>

text \<open>
  The four nested loops of \<open>_pixelate(imageData, pixelSize)\<close>, innermost first. The two
  inner loops are bounded by \<open>pixelSize\<close>; the two outer loops advance by \<open>pixelSize\<close> and
  do not return when it is 0, so they are partial functions and \<open>None\<close> is a loop that
  does not return. \<open>pixelSize\<close> is a natural number (the documented range is 1 to 50).
\<close>

function dxLoop :: "nat \<Rightarrow> nat \<Rightarrow> nat \<Rightarrow> nat \<Rightarrow> nat \<Rightarrow> byte \<Rightarrow> byte \<Rightarrow> byte \<Rightarrow> nat
    \<Rightarrow> byte list \<Rightarrow> byte list" where
  "dxLoop pixelSize w x y dy r g b dx d =
     (if dx < pixelSize \<and> x + dx < w
      then let i = ((y + dy) * w + (x + dx)) * 4
           in dxLoop pixelSize w x y dy r g b (dx + 1) (d[i := r, i + 1 := g, i + 2 := b])
      else d)"
  by pat_completeness auto
termination
  by (relation "measure (\<lambda>(pixelSize, w, x, y, dy, r, g, b, dx, d). pixelSize - dx)") auto

function dyLoop :: "nat \<Rightarrow> nat \<Rightarrow> nat \<Rightarrow> nat \<Rightarrow> nat \<Rightarrow> byte \<Rightarrow> byte \<Rightarrow> byte \<Rightarrow> nat
    \<Rightarrow> byte list \<Rightarrow> byte list" where
  "dyLoop pixelSize w h x y r g b dy d =
     (if dy < pixelSize \<and> y + dy < h
      then dyLoop pixelSize w h x y r g b (dy + 1) (dxLoop pixelSize w x y dy r g b 0 d)
      else d)"
  by pat_completeness auto
termination
  by (relation "measure (\<lambda>(pixelSize, w, h, x, y, r, g, b, dy, d). pixelSize - dy)") auto

declare dxLoop.simps [simp del] dyLoop.simps [simp del]

partial_function (option) xLoop :: "nat \<Rightarrow> nat \<Rightarrow> nat \<Rightarrow> nat \<Rightarrow> nat \<Rightarrow> byte list \<Rightarrow> byte list option" where
  xLoop_unfold [code]: "xLoop pixelSize w h y x d =
     (if x < w
      then let idx = (y * w + x) * 4;
               r = rd d idx; g = rd d (idx + 1); b = rd d (idx + 2)
           in xLoop pixelSize w h y (x + pixelSize) (dyLoop pixelSize w h x y r g b 0 d)
      else Some d)"

partial_function (option) yLoop :: "nat \<Rightarrow> nat \<Rightarrow> nat \<Rightarrow> nat \<Rightarrow> byte list \<Rightarrow> byte list option" where
  yLoop_unfold [code]: "yLoop pixelSize w h y d =
     (if y < h
      then Option.bind (xLoop pixelSize w h y 0 d) (\<lambda>d'. yLoop pixelSize w h (y + pixelSize) d')
      else Some d)"

definition pixelate_priv :: "imageData \<Rightarrow> nat \<Rightarrow> imageData option" where
  "pixelate_priv img pixelSize =
     map_option (\<lambda>d. img\<lparr>data := d\<rparr>) (yLoop pixelSize (width img) (height img) 0 (data img))"

subsection \<open>\<open>blurRegions\<close>\<close>

text \<open>
  The body of the \<open>forEach\<close> callback of \<open>blurRegions\<close> for one box, and the loop over
  the boxes. The result is \<open>None\<close> when a pixelation does not return, \<open>Some (Inl e)\<close>
  when an exception \<open>e\<close> is thrown, and \<open>Some (Inr c)\<close> with the canvas as the call
  leaves it otherwise.
\<close>

definition blurRegion :: "nat \<Rightarrow> canvas \<Rightarrow> bbox \<Rightarrow> (imageError + canvas) option" where
  "blurRegion blurIntensity c box =
     (let w = x1 box - x0 box;
          h = y1 box - y0 box
      in case getImageData c (x0 box) (y0 box) w h of
           Inl e \<Rightarrow> Some (Inl e)
         | Inr img \<Rightarrow>
             (case pixelate_priv img blurIntensity of
                None \<Rightarrow> None
              | Some img' \<Rightarrow> Some (Inr (putImageData c img' (x0 box) (y0 box)))))"

fun blurEach :: "nat \<Rightarrow> canvas \<Rightarrow> blurBox list \<Rightarrow> (imageError + canvas) option" where
  "blurEach blurIntensity c [] = Some (Inr c)"
| "blurEach blurIntensity c (box # boxes) =
     (case blurRegion blurIntensity c (b_bbox box) of
        None \<Rightarrow> None
      | Some (Inl e) \<Rightarrow> Some (Inl e)
      | Some (Inr c') \<Rightarrow> blurEach blurIntensity c' boxes)"

definition blurRegions :: "canvas option \<Rightarrow> blurBox list \<Rightarrow> nat \<Rightarrow> (imageError + canvas) option" where
  "blurRegions ctx boxes blurIntensity =
     (case ctx of
        None \<Rightarrow> Some (Inl CanvasNotInitialised)
      | Some c \<Rightarrow> blurEach blurIntensity c boxes)"

subsection \<open>The pixelation as a function of the pixel index\<close>

text \<open>
  The pixel index of the top-left pixel of the block that holds pixel \<open>p\<close>, in an image
  of width \<open>w\<close> cut into blocks of side \<open>pixelSize\<close>.
\<close>

definition blockOrigin :: "nat \<Rightarrow> nat \<Rightarrow> nat \<Rightarrow> nat" where
  "blockOrigin pixelSize w p =
     (p div w - p div w mod pixelSize) * w + (p mod w - p mod w mod pixelSize)"

text \<open>
  The array in which the pixels of \<open>P\<close> have taken the red, green and blue bytes of
  the top-left pixel of their block, the alpha bytes and all other pixels being as in
  \<open>d\<close>.
\<close>

definition painted :: "nat \<Rightarrow> nat \<Rightarrow> byte list \<Rightarrow> nat set \<Rightarrow> byte list" where
  "painted pixelSize w d P =
     map (\<lambda>i. if i div 4 \<in> P \<and> i mod 4 \<noteq> 3
               then d ! (blockOrigin pixelSize w (i div 4) * 4 + i mod 4) else d ! i)
         [0..<length d]"

definition pixelated :: "nat \<Rightarrow> nat \<Rightarrow> byte list \<Rightarrow> byte list" where
  "pixelated pixelSize w d =
     map (\<lambda>i. if i mod 4 \<noteq> 3
               then d ! (blockOrigin pixelSize w (i div 4) * 4 + i mod 4) else d ! i)
         [0..<length d]"

text \<open>The pixel indices of row \<open>r\<close> between columns \<open>a\<close> and \<open>b\<close>, and of a rectangle.\<close>

definition rowSeg :: "nat \<Rightarrow> nat \<Rightarrow> nat \<Rightarrow> nat \<Rightarrow> nat set" where
  "rowSeg w r a b = (\<lambda>c. r * w + c) ` {a..<b}"

definition rect :: "nat \<Rightarrow> nat \<Rightarrow> nat \<Rightarrow> nat \<Rightarrow> nat \<Rightarrow> nat set" where
  "rect w r0 r1 a b = (\<Union>r\<in>{r0..<r1}. rowSeg w r a b)"

text \<open>
  What a read leaves of data just written: every colour byte premultiplied by the alpha of
  its pixel and converted back.
\<close>

definition quantise :: "byte list \<Rightarrow> byte list" where
  "quantise d =
     map (\<lambda>i. if i mod 4 = 3 then d ! i
               else unpremultiply (d ! (i div 4 * 4 + 3)) (premultiply (d ! (i div 4 * 4 + 3)) (d ! i)))
         [0..<length d]"

text \<open>
  A box inside the bitmap; a bitmap of the right size; a box whose corner \<open>(x0, y0)\<close>,
  width \<open>x1 - x0\<close> and height \<open>y1 - y0\<close>, the four arguments of \<open>getImageData\<close>, are
  in the signed 32-bit range; and a box that \<open>getImageData\<close> accepts: such arguments,
  width and height not zero, and image data that the runtime allocates.
\<close>

definition inBounds :: "canvas \<Rightarrow> bbox \<Rightarrow> bool" where
  "inBounds c box =
     (0 \<le> x0 box \<and> x0 box < x1 box \<and> x1 box \<le> int (cv_width c)
      \<and> 0 \<le> y0 box \<and> y0 box < y1 box \<and> y1 box \<le> int (cv_height c))"

definition wellFormed :: "canvas \<Rightarrow> bool" where
  "wellFormed c = (length (cv_pixels c) = cv_width c * cv_height c * 4)"

definition longArgs :: "bbox \<Rightarrow> bool" where
  "longArgs box =
     (inLongRange (x0 box) \<and> inLongRange (y0 box)
      \<and> inLongRange (x1 box - x0 box) \<and> inLongRange (y1 box - y0 box))"

definition readable :: "canvas \<Rightarrow> bbox \<Rightarrow> bool" where
  "readable c box =
     (longArgs box \<and> x1 box \<noteq> x0 box \<and> y1 box \<noteq> y0 box
      \<and> nat \<bar>x1 box - x0 box\<bar> * nat \<bar>y1 box - y0 box\<bar> * 4 \<le> cv_limit c)"

text \<open>Test data: a canvas of two pixels side by side, and boxes.\<close>

definition twoPixels :: canvas where
  "twoPixels = \<lparr>cv_width = 2, cv_height = 1, cv_pixels = [10, 20, 30, 255, 40, 50, 60, 255],
     cv_limit = 1000000\<rparr>"

text \<open>
  Two pixels that are almost transparent: the first is stored as (2, 1, 1) with alpha 3
  and reads as (170, 85, 85), the second is stored as (0, 1, 0) with alpha 1 and reads as
  (0, 255, 0).
\<close>

definition faintPixels :: canvas where
  "faintPixels = \<lparr>cv_width = 2, cv_height = 1, cv_pixels = [2, 1, 1, 3, 0, 1, 0, 1],
     cv_limit = 1000000\<rparr>"

definition boxAt :: "int \<Rightarrow> int \<Rightarrow> int \<Rightarrow> int \<Rightarrow> blurBox" where
  "boxAt a b c d = \<lparr>b_bbox = \<lparr>x0 = a, y0 = b, x1 = c, y1 = d\<rparr>, b_type = ''person'',
     b_text = js ''Marie'', b_confidence = 90\<rparr>"


section \<open>LocalSealEngine: the pipeline\<close>

subsection \<open>Progress values: IEEE 754 double precision\<close>

text \<open>
  The progress values are JavaScript numbers. A finite double is modelled by the
  rational number it denotes; \<open>toDouble\<close> rounds a rational to the nearest double, ties
  to the even significand, for the normal positive range below \<open>2^53\<close> (0 is kept; no
  other value occurs in the pipeline). A decimal literal denotes the double nearest to
  it, and \<open>+\<close> and \<open>*\<close> round the exact result.
\<close>

definition roundHalfEven :: "rat \<Rightarrow> int" where
  "roundHalfEven q =
     (let f = \<lfloor>q\<rfloor>; r = q - of_int f
      in if r < 1 / 2 then f else if 1 / 2 < r then f + 1 else if even f then f else f + 1)"

text \<open>The least \<open>k\<close> from the given one, within the fuel, with \<open>2^52 \<le> x * 2^k\<close>.\<close>

fun scaleTo53 :: "nat \<Rightarrow> nat \<Rightarrow> rat \<Rightarrow> nat" where
  "scaleTo53 0 k x = k"
| "scaleTo53 (Suc fuel) k x = (if 2 ^ 52 \<le> x * 2 ^ k then k else scaleTo53 fuel (Suc k) x)"

definition toDouble :: "rat \<Rightarrow> rat" where
  "toDouble x =
     (if 0 < x \<and> x < 2 ^ 53
      then let k = scaleTo53 1074 0 x in of_int (roundHalfEven (x * 2 ^ k)) / 2 ^ k
      else x)"

text \<open>The decimal literal that denotes \<open>m / d\<close>: \<open>lit 15 100\<close> is \<open>0.15\<close>.\<close>

definition lit :: "int \<Rightarrow> int \<Rightarrow> rat" where
  "lit m d = toDouble (of_int m / of_int d)"

definition dadd :: "rat \<Rightarrow> rat \<Rightarrow> rat" where
  "dadd a b = toDouble (a + b)"

definition dmul :: "rat \<Rightarrow> rat \<Rightarrow> rat" where
  "dmul a b = toDouble (a * b)"

subsection \<open>The state of a run and the collaborators\<close>

text \<open>
  A progress event as a listener of \<open>onProgress\<close> receives it: the step and the progress
  value (the message text is not modelled).
\<close>

record progressEvent =
  step :: string
  progress :: rat

datatype failure =
    UnsupportedFileType
  | TypeErrorThrown
  | LoadFailed
  | OcrInitFailed
  | OcrFailed
  | CanvasFailed imageError
  | ExportFailed
  | ThumbnailFailed

text \<open>
  What a run has done so far: the progress events emitted, in order; the canvas of the
  image service (\<open>None\<close> when \<open>ctx\<close> is null); the number of calls of \<open>blurRegions\<close> and of
  \<open>addSmartWatermark\<close>; the number of completion events and the errors sent to the error
  listeners.
\<close>

record run =
  events :: "progressEvent list"
  ctx :: "canvas option"
  blurCalls :: nat
  watermarkCalls :: nat
  completions :: nat
  errors :: "failure list"

definition newRun :: run where
  "newRun = \<lparr>events = [], ctx = None, blurCalls = 0, watermarkCalls = 0, completions = 0,
     errors = []\<rparr>"

record processOptions =
  anonymize :: bool
  blurIntensity :: nat
  extractTextOnly :: bool

record fileInfo =
  f_name :: jsstring
  f_type :: jsstring

record ocrResult =
  o_text :: jsstring
  o_confidence :: rat
  o_words :: "ocrWord list"

text \<open>
  What lies outside the repository, as the run meets it: the decoding of the file into
  the canvas (\<open>loadImage\<close> then \<open>initCanvas\<close>), the creation of the Tesseract worker and
  its recognition, the named-entity library behind \<open>analyze\<close> together with the scan of
  the sensitive patterns, the drawing of the watermark, and the two encodings of the
  canvas. A collaborator that fails gives \<open>None\<close>.
\<close>

record collaborators =
  loadImage :: "canvas option"
  createWorker :: bool
  recognize :: "ocrResult option"
  analyzed :: "jsstring \<Rightarrow> nlpResult"
  drawWatermark :: "canvas \<Rightarrow> canvas"
  exportOk :: bool
  thumbnailOk :: bool

text \<open>\<open>_emitProgress(step, progress, message)\<close>: every listener is called with the event.\<close>

definition emitProgress :: "string \<Rightarrow> rat \<Rightarrow> run \<Rightarrow> run" where
  "emitProgress s p r = r\<lparr>events := events r @ [\<lparr>step = s, progress = p\<rparr>]\<rparr>"

text \<open>
  \<open>_detectMimeType(file)\<close>: the type of the file when it has one, else the entry of
  \<open>mimeMap\<close> for its extension (the last part of the name after a dot, lower-cased), else
  \<open>application/octet-stream\<close>. \<open>mimeMap\<close> is an object literal: for the extensions
  \<open>constructor\<close> and \<open>__proto__\<close> the look-up finds a member of \<open>Object.prototype\<close>,
  which is not a string (\<open>None\<close> here), and \<open>startsWith\<close> on it throws a \<open>TypeError\<close>.
\<close>

definition mimeMap :: "jsstring \<Rightarrow> jsstring option" where
  "mimeMap ext =
     (if ext = js ''jpg'' then Some (js ''image/jpeg'')
      else if ext = js ''jpeg'' then Some (js ''image/jpeg'')
      else if ext = js ''png'' then Some (js ''image/png'')
      else if ext = js ''webp'' then Some (js ''image/webp'')
      else if ext = js ''pdf'' then Some (js ''application/pdf'')
      else if ext = js ''constructor'' \<or> ext = js ''__proto__'' then None
      else Some (js ''application/octet-stream''))"

definition detectMimeType_priv :: "(jsstring \<Rightarrow> jsstring) \<Rightarrow> fileInfo \<Rightarrow> jsstring option" where
  "detectMimeType_priv toLowerCase file =
     (if f_type file \<noteq> [] then Some (f_type file)
      else mimeMap (toLowerCase (last (split 46 (f_name file)))))"

text \<open>
  \<open>OCRService.extractText(imageSource, onProgress)\<close>: the worker is created, the image
  is recognised, and on success \<open>onProgress\<close> is called once, with \<open>progress: 1\<close>.
\<close>

definition extractText :: "collaborators \<Rightarrow> (rat \<Rightarrow> run \<Rightarrow> run) \<Rightarrow> run \<Rightarrow> (failure + ocrResult) \<times> run" where
  "extractText env onProgress r =
     (if \<not> createWorker env then (Inl OcrInitFailed, r)
      else case recognize env of
             None \<Rightarrow> (Inl OcrFailed, r)
           | Some result \<Rightarrow> (Inr result, onProgress 1 r))"

text \<open>
  The callback \<open>processFile\<close> hands to \<open>extractText\<close>:
  \<^verbatim>\<open>baseProgress + (progress.progress * range)\<close> with \<open>baseProgress = 0.2\<close> and
  \<open>range = 0.4\<close>.
\<close>

definition ocrProgress :: "rat \<Rightarrow> run \<Rightarrow> run" where
  "ocrProgress p r =
     (let baseProgress = lit 2 10; range = lit 4 10
      in emitProgress ''ocr_processing'' (dadd baseProgress (dmul p range)) r)"

subsection \<open>\<open>processFile\<close>, step by step\<close>

text \<open>
  Steps 1 to 3 of \<open>processFile\<close>: the MIME type, the loading of the image and the OCR.
  A failure carries the run as it was when the exception was thrown.
\<close>

definition readStage :: "(jsstring \<Rightarrow> jsstring) \<Rightarrow> collaborators \<Rightarrow> fileInfo \<Rightarrow> run
    \<Rightarrow> (failure \<times> run) + (ocrResult \<times> run)" where
  "readStage toLowerCase env file r =
     (let r1 = emitProgress ''mime_detection'' (lit 1 10) r
      in case detectMimeType_priv toLowerCase file of
           None \<Rightarrow> Inl (TypeErrorThrown, r1)
         | Some mimeType \<Rightarrow>
         let isPdf = (mimeType = js ''application/pdf'')
         in if \<not> prefix (js ''image/'') mimeType \<and> \<not> isPdf then Inl (UnsupportedFileType, r1)
         else
           let r2 = emitProgress ''image_load'' (lit 15 100) r1
           in case loadImage env of
                None \<Rightarrow> Inl (LoadFailed, r2)
              | Some c \<Rightarrow>
                  let r3 = emitProgress ''ocr_start'' (lit 2 10) (r2\<lparr>ctx := Some c\<rparr>)
                  in case extractText env ocrProgress r3 of
                       (Inl e, r4) \<Rightarrow> Inl (e, r4)
                     | (Inr ocr, r4) \<Rightarrow>
                         Inr (ocr, emitProgress ''ocr_complete'' (lit 6 10) r4))"

text \<open>
  \<open>nlpResult.total > 0\<close>: \<open>total\<close> is absent from the result \<open>analyze\<close> returns early, and
  \<open>undefined > 0\<close> is false.
\<close>

definition totalPositive :: "nlpResult \<Rightarrow> bool" where
  "totalPositive nlp = (case total nlp of None \<Rightarrow> False | Some n \<Rightarrow> 0 < n)"

text \<open>
  Step 4, the anonymisation, entered when \<open>anonymize\<close> is set. \<open>None\<close> is a pixelation
  that does not return.
\<close>

definition anonymizeStage :: "(jsstring \<Rightarrow> jsstring) \<Rightarrow> (jsstring \<Rightarrow> jsstring) \<Rightarrow> collaborators
    \<Rightarrow> processOptions \<Rightarrow> ocrResult \<Rightarrow> run \<Rightarrow> ((failure \<times> run) + (nlpResult \<times> run)) option" where
  "anonymizeStage toLowerCase nfd env opts ocr r =
     (let r1 = emitProgress ''nlp_analysis'' (lit 65 100) r;
          nlp = analyzed env (o_text ocr);
          r2 = emitProgress ''nlp_complete'' (lit 7 10) r1
      in if totalPositive nlp
         then
           let r3 = emitProgress ''blur_start'' (lit 75 100) r2;
               boxesToBlur = mapEntitiesToWords toLowerCase nfd nlp (o_words ocr);
               r4 = r3\<lparr>blurCalls := blurCalls r3 + 1\<rparr>
           in case blurRegions (ctx r4) boxesToBlur (blurIntensity opts) of
                None \<Rightarrow> None
              | Some (Inl e) \<Rightarrow> Some (Inl (CanvasFailed e, r4))
              | Some (Inr c) \<Rightarrow>
                  Some (Inr (nlp, emitProgress ''blur_complete'' (lit 85 100)
                                    (r4\<lparr>ctx := Some c\<rparr>)))
         else Some (Inr (nlp, emitProgress ''blur_skip'' (lit 8 10) r2)))"

text \<open>The result object of a full run; the encoded file and the thumbnail are not modelled.\<close>

record processResult =
  entitiesFound :: nat
  watermarked :: bool

datatype outcome = TextFile | Result processResult | Thrown failure

text \<open>Steps 5 and 6: the watermark, the export, the last progress event, the thumbnail.\<close>

definition exportStage :: "collaborators \<Rightarrow> bool \<Rightarrow> processOptions \<Rightarrow> nlpResult option \<Rightarrow> run
    \<Rightarrow> (failure \<times> run) + (processResult \<times> run)" where
  "exportStage env requiresWatermark opts nlp r =
     (let r1 = (if requiresWatermark
                then let r' = emitProgress ''watermark'' (lit 9 10) r
                     in r'\<lparr>ctx := map_option (drawWatermark env) (ctx r'),
                           watermarkCalls := watermarkCalls r' + 1\<rparr>
                else r);
          r2 = emitProgress ''export'' (lit 95 100) r1
      in if \<not> exportOk env then Inl (ExportFailed, r2)
         else
           let r3 = emitProgress ''complete'' 1 r2
           in if \<not> thumbnailOk env then Inl (ThumbnailFailed, r3)
              else Inr (\<lparr>entitiesFound =
                            (if anonymize opts
                             then (case nlp of None \<Rightarrow> 0
                                   | Some n \<Rightarrow> (case total n of None \<Rightarrow> 0 | Some t \<Rightarrow> t))
                             else 0),
                         watermarked = requiresWatermark\<rparr>, r3))"

text \<open>
  The \<open>catch\<close> and \<open>finally\<close> blocks: an exception is sent to the error listeners and
  thrown again; in every case the image service is destroyed.
\<close>

definition thrown :: "failure \<Rightarrow> run \<Rightarrow> outcome \<times> run" where
  "thrown e r = (Thrown e, r\<lparr>errors := errors r @ [e], ctx := None\<rparr>)"

definition returned :: "outcome \<Rightarrow> run \<Rightarrow> outcome \<times> run" where
  "returned out r = (out, r\<lparr>completions := completions r + 1, ctx := None\<rparr>)"

text \<open>
  \<open>processFile(file, options)\<close> on a fresh engine. \<open>requiresWatermark\<close> is
  \<open>this.licenseStatus.requiresWatermark\<close>. \<open>None\<close> is a run that does not return.
\<close>

definition processFile :: "(jsstring \<Rightarrow> jsstring) \<Rightarrow> (jsstring \<Rightarrow> jsstring) \<Rightarrow> collaborators \<Rightarrow> bool
    \<Rightarrow> fileInfo \<Rightarrow> processOptions \<Rightarrow> (outcome \<times> run) option" where
  "processFile toLowerCase nfd env requiresWatermark file opts =
     (case readStage toLowerCase env file newRun of
        Inl (e, r) \<Rightarrow> Some (thrown e r)
      | Inr (ocr, r) \<Rightarrow>
          if extractTextOnly opts then Some (returned TextFile r)
          else
            (case (if anonymize opts
                   then map_option (map_sum id (\<lambda>(n, r'). (Some n, r')))
                          (anonymizeStage toLowerCase nfd env opts ocr r)
                   else Some (Inr (None, r))) of
               None \<Rightarrow> None
             | Some (Inl (e, r')) \<Rightarrow> Some (thrown e r')
             | Some (Inr (nlp, r')) \<Rightarrow>
                 (case exportStage env requiresWatermark opts nlp r' of
                    Inl (e, r'') \<Rightarrow> Some (thrown e r'')
                  | Inr (res, r'') \<Rightarrow> Some (returned (Result res) r''))))"

text \<open>The number of progress events of a step emitted so far.\<close>

definition countStep :: "string \<Rightarrow> run \<Rightarrow> nat" where
  "countStep s r = length (filter (\<lambda>e. step e = s) (events r))"

text \<open>The steps emitted by steps 1 to 3 and by steps 5 and 6 of \<open>processFile\<close>.\<close>

definition readSteps :: "string set" where
  "readSteps = {''mime_detection'', ''image_load'', ''ocr_start'', ''ocr_processing'', ''ocr_complete''}"

definition exportSteps :: "string set" where
  "exportSteps = {''watermark'', ''export'', ''complete''}"

text \<open>Test data: collaborators that all succeed, a PNG file, and the options of a run.\<close>

definition okCollaborators :: "nat option \<Rightarrow> collaborators" where
  "okCollaborators n =
     \<lparr>loadImage = Some twoPixels, createWorker = True,
      recognize = Some \<lparr>o_text = js ''Marie Dupont'', o_confidence = 90,
                         o_words = [wordOf ''Marie'', wordOf ''Dupont'']\<rparr>,
      analyzed = (\<lambda>text. \<lparr>entities = (case n of Some (Suc _) \<Rightarrow> [spanOf ''person'' ''Marie Dupont'']
                                        | _ \<Rightarrow> []),
                          sensitive = [], total = n\<rparr>),
      drawWatermark = (\<lambda>c. c), exportOk = True, thumbnailOk = True\<rparr>"

definition pngFile :: fileInfo where
  "pngFile = \<lparr>f_name = js ''scan.png'', f_type = js ''image/png''\<rparr>"

definition optionsOf :: "bool \<Rightarrow> processOptions" where
  "optionsOf a = \<lparr>anonymize = a, blurIntensity = 20, extractTextOnly = False\<rparr>"


section \<open>NLPProcessor: the scan of the sensitive patterns\<close>

text \<open>
  A regular expression of \<open>this.patterns\<close> with the global flag, as \<open>exec\<close> uses it: the
  matching algorithm of the pattern, which for a text and a start index gives the
  leftmost match at or after that index as (index, end), or \<open>None\<close>; and the mutable
  \<open>lastIndex\<close> of the object. The twelve patterns themselves are not spelled out: the
  scan is modelled for any list of patterns.
\<close>

type_synonym matcher = "jsstring \<Rightarrow> nat \<Rightarrow> (nat \<times> nat) option"

record regex =
  r_type :: string
  r_match :: matcher
  lastIndex :: nat

text \<open>
  \<open>regex.exec(text)\<close> on a global regular expression: when \<open>lastIndex\<close> is beyond the
  text, or no match is found from it, \<open>lastIndex\<close> becomes 0 and the result is \<open>null\<close>;
  otherwise \<open>lastIndex\<close> becomes the end of the match. The result is the match and the
  new \<open>lastIndex\<close>.
\<close>

definition exec :: "matcher \<Rightarrow> jsstring \<Rightarrow> nat \<Rightarrow> (nat \<times> nat) option \<times> nat" where
  "exec m text li =
     (if length text < li then (None, 0)
      else case m text li of
             None \<Rightarrow> (None, 0)
           | Some (i, e) \<Rightarrow> (Some (i, e), e))"

text \<open>
  \<^verbatim>\<open>while ((match = regex.exec(text)) !== null) results.push({type, text: match[0], ...})\<close>.
  The loop does not return when a match is empty, so it is a partial function.
\<close>

partial_function (option) execLoop :: "matcher \<Rightarrow> string \<Rightarrow> jsstring \<Rightarrow> nat \<Rightarrow> textSpan list
    \<Rightarrow> (textSpan list \<times> nat) option" where
  execLoop_unfold [code]: "execLoop m type text li results =
     (case exec m text li of
        (None, li') \<Rightarrow> Some (results, li')
      | (Some (i, e), li') \<Rightarrow>
          execLoop m type text li'
            (results @ [\<lparr>s_type = type, s_text = take (e - i) (drop i text),
                         s_offset = int i, s_length = e - i\<rparr>]))"

text \<open>The \<open>forEach\<close> over \<open>Object.entries(this.patterns)\<close>, and \<open>_detectSensitiveValues\<close>.\<close>

fun detectEach :: "regex list \<Rightarrow> jsstring \<Rightarrow> textSpan list \<Rightarrow> (textSpan list \<times> regex list) option" where
  "detectEach [] text results = Some (results, [])"
| "detectEach (p # ps) text results =
     (case execLoop (r_match p) (r_type p) text (lastIndex p) results of
        None \<Rightarrow> None
      | Some (results', li) \<Rightarrow>
          (case detectEach ps text results' of
             None \<Rightarrow> None
           | Some (r, ps') \<Rightarrow> Some (r, p\<lparr>lastIndex := li\<rparr> # ps')))"

definition detectSensitiveValues_priv :: "regex list \<Rightarrow> jsstring \<Rightarrow> (textSpan list \<times> regex list) option" where
  "detectSensitiveValues_priv patterns text = detectEach patterns text []"

text \<open>
  What holds of the matching algorithm of each of the twelve patterns: a match starts at
  or after the start index, ends within the text, and is not empty (every pattern
  requires at least one character).
\<close>

definition matcherOk :: "matcher \<Rightarrow> bool" where
  "matcherOk m = (\<forall>text start i e. m text start = Some (i, e) \<longrightarrow> start \<le> i \<and> i < e \<and> e \<le> length text)"

text \<open>
  The pattern \<open>postalCode\<close>, \<^verbatim>\<open>/\b\d{5}\b/g\<close>: five digits between two word boundaries.
\<close>

definition isDigit :: "nat \<Rightarrow> bool" where
  "isDigit c = (48 \<le> c \<and> c \<le> 57)"

definition wordAt :: "jsstring \<Rightarrow> int \<Rightarrow> bool" where
  "wordAt text j = (0 \<le> j \<and> j < int (length text) \<and> isWordChar (text ! nat j))"

definition wordBoundary :: "jsstring \<Rightarrow> nat \<Rightarrow> bool" where
  "wordBoundary text i = (wordAt text (int i - 1) \<noteq> wordAt text (int i))"

definition postalCodeAt :: "jsstring \<Rightarrow> nat \<Rightarrow> bool" where
  "postalCodeAt text i =
     (i + 5 \<le> length text \<and> list_all isDigit (take 5 (drop i text))
      \<and> wordBoundary text i \<and> wordBoundary text (i + 5))"

definition postalCodeMatcher :: matcher where
  "postalCodeMatcher text start =
     map_option (\<lambda>i. (i, i + 5)) (List.find (postalCodeAt text) [start..<Suc (length text)])"

definition postalCodeRegex :: regex where
  "postalCodeRegex = \<lparr>r_type = ''postalCode'', r_match = postalCodeMatcher, lastIndex = 0\<rparr>"


section \<open>Word mapping: what is pushed\<close>






lemmas ascii_eval = normalize_priv_def toLowerCase_ascii_def normalizeNFD_ascii_def js_def
  isWordChar_def isWhiteSpace_def isCombiningMark_def wordOf_def spanOf_def boxOf_def






section \<open>License keys: the checksum\<close>

lemma toInt32_sint: "toInt32 x = sint (word_of_int x :: 32 word)"
  by (simp add: toInt32_def sint_sbintrunc' signed_take_bit_eq_take_bit_shift take_bit_eq_mod)

lemma bitAnd_same: "bitAnd x x = toInt32 x"
  by (simp add: bitAnd_def)

lemma hashStep_word: "hashStep (sint w) c = sint (w * 31 + of_nat c)" for w :: "32 word"
proof -
  have "(word_of_int (sint (word_of_int (sint w * 32) :: 32 word) - sint w + int c) :: 32 word)
          = w * 32 - w + of_nat c"
    by simp
  also have "\<dots> = w * 31 + of_nat c"
    by simp
  finally show ?thesis
    by (simp add: hashStep_def shiftLeft_def bitAnd_same toInt32_sint Let_def mult.commute)
qed

lemma hashLoop_fold:
  "foldl hashStep (sint w) input = sint (foldl (\<lambda>h c. h * 31 + of_nat c) w input)"
  for w :: "32 word"
  by (induction input arbitrary: w) (simp_all add: hashStep_word)

lemma hashLoop_specHash: "hashLoop input = sint (specHash input)"
  using hashLoop_fold [of 0 input] by (simp add: hashLoop_def specHash_def)

lemma upper_hexDigit: "d < 16 \<Longrightarrow> toUpperCase_ascii [hexDigit d] = [upperHexDigit d]"
  by (auto simp: toUpperCase_ascii_def hexDigit_def upperHexDigit_def)

lemma toUpperCase_ascii_append:
  "toUpperCase_ascii (s @ t) = toUpperCase_ascii s @ toUpperCase_ascii t"
  by (simp add: toUpperCase_ascii_def)

lemma upperHex_step:
  "upperHex n = (if n < 16 then [upperHexDigit n]
                 else upperHex (n div 16) @ [upperHexDigit (n mod 16)])"
  unfolding upperHex_def
  by (subst toString16.simps) (simp add: toUpperCase_ascii_append upper_hexDigit)

lemma upperHex_nonempty: "upperHex n \<noteq> []"
  by (subst upperHex_step) simp

lemma last4_short1: "sliceLast 4 (padStart 4 z [a]) = [z, z, z, a]"
  by (simp add: sliceLast_def padStart_def numeral_eq_Suc)

lemma last4_short2: "sliceLast 4 (padStart 4 z [a, b]) = [z, z, a, b]"
  by (simp add: sliceLast_def padStart_def numeral_eq_Suc)

lemma last4_short3: "sliceLast 4 (padStart 4 z [a, b, c]) = [z, a, b, c]"
  by (simp add: sliceLast_def padStart_def numeral_eq_Suc)

lemma last4_long: "sliceLast 4 (padStart 4 z (xs @ [a, b, c, d])) = [a, b, c, d]"
  by (simp add: sliceLast_def padStart_def)

lemma last4_upperHex:
  "sliceLast 4 (padStart 4 48 (upperHex n))
     = [upperHexDigit (n div 4096 mod 16), upperHexDigit (n div 256 mod 16),
        upperHexDigit (n div 16 mod 16), upperHexDigit (n mod 16)]"
proof -
  consider "n < 16" | "16 \<le> n" "n < 256" | "256 \<le> n" "n < 4096" | "4096 \<le> n"
    by linarith
  then show ?thesis
  proof cases
    case 1
    then have "upperHex n = [upperHexDigit n]"
      by (subst upperHex_step) simp
    with 1 show ?thesis
      by (simp add: last4_short1 upperHexDigit_def)
  next
    case 2
    then have d: "n div 16 < 16" by simp
    have "upperHex n = upperHex (n div 16) @ [upperHexDigit (n mod 16)]"
      using 2 by (subst upperHex_step) simp
    also have "upperHex (n div 16) = [upperHexDigit (n div 16)]"
      using d by (subst upperHex_step) simp
    finally have "upperHex n = [upperHexDigit (n div 16), upperHexDigit (n mod 16)]"
      by simp
    moreover have "n div 4096 = 0" "n div 256 = 0" using 2 by simp_all
    ultimately show ?thesis
      using d by (simp add: last4_short2 upperHexDigit_def)
  next
    case 3
    then have d: "n div 16 div 16 < 16" "16 \<le> n div 16" by simp_all
    have "upperHex n = upperHex (n div 16) @ [upperHexDigit (n mod 16)]"
      using 3 by (subst upperHex_step) simp
    also have "upperHex (n div 16) = upperHex (n div 16 div 16) @ [upperHexDigit (n div 16 mod 16)]"
      using d by (subst upperHex_step) simp
    also have "upperHex (n div 16 div 16) = [upperHexDigit (n div 16 div 16)]"
      using d by (subst upperHex_step) simp
    finally have "upperHex n = [upperHexDigit (n div 256), upperHexDigit (n div 16 mod 16),
        upperHexDigit (n mod 16)]"
      by (simp add: div_mult2_eq [symmetric])
    moreover have "n div 4096 = 0" "n div 256 < 16" using 3 by simp_all
    ultimately show ?thesis
      by (simp add: last4_short3 upperHexDigit_def)
  next
    case 4
    then have d: "16 \<le> n" "16 \<le> n div 16" "16 \<le> n div 16 div 16"
      by simp_all
    have "upperHex n = upperHex (n div 16) @ [upperHexDigit (n mod 16)]"
      using d by (subst upperHex_step) simp
    also have "upperHex (n div 16) = upperHex (n div 16 div 16) @ [upperHexDigit (n div 16 mod 16)]"
      using d by (subst upperHex_step) simp
    also have "upperHex (n div 16 div 16)
        = upperHex (n div 16 div 16 div 16) @ [upperHexDigit (n div 16 div 16 mod 16)]"
      using d by (subst upperHex_step) simp
    also have "upperHex (n div 16 div 16 div 16)
        = (if n div 16 div 16 div 16 < 16 then [] else upperHex (n div 16 div 16 div 16 div 16))
          @ [upperHexDigit (n div 16 div 16 div 16 mod 16)]"
      by (subst upperHex_step) simp
    finally have "upperHex n
        = (if n div 16 div 16 div 16 < 16 then [] else upperHex (n div 16 div 16 div 16 div 16))
          @ [upperHexDigit (n div 4096 mod 16), upperHexDigit (n div 256 mod 16),
             upperHexDigit (n div 16 mod 16), upperHexDigit (n mod 16)]"
      by (simp add: div_mult2_eq [symmetric])
    then show ?thesis
      by (simp only: last4_long)
  qed
qed

lemma calculatedCheck_hex4:
  "calculatedCheck h
     = (let a = nat \<bar>h\<bar>
        in [upperHexDigit (a div 4096 mod 16), upperHexDigit (a div 256 mod 16),
            upperHexDigit (a div 16 mod 16), upperHexDigit (a mod 16)])"
  using last4_upperHex [of "nat \<bar>h\<bar>"] by (simp add: calculatedCheck_def upperHex_def Let_def)

lemma calculatedCheck_specCheck: "calculatedCheck (hashLoop input) = specCheck input"
  by (simp add: calculatedCheck_hex4 specCheck_def hashLoop_specHash)


section \<open>License keys: the validation step by step\<close>

lemma validateLicenseKey_steps:
  "validateLicenseKey_priv now ls key =
     (if keyFormat key \<and> checksumPasses key \<and> timeWindowPasses now (split 45 key ! 1)
      then replayStep ls key else (False, ls))"
  by (simp add: validateLicenseKey_priv_def checksumPasses_def timeWindowPasses_def
      replayStep_def Let_def)

lemma isGroup_no_hyphen: "isGroup g \<Longrightarrow> 45 \<notin> set g"
  by (auto simp: isGroup_def isKeyChar_def list_all_iff)

lemma split_no_sep: "sep \<notin> set g \<Longrightarrow> split sep g = [g]"
  by (induction g) auto

lemma split_at_sep: "sep \<notin> set g \<Longrightarrow> split sep (g @ sep # rest) = g # split sep rest"
  by (induction g) auto

lemma split_groups:
  assumes "isGroup g1" "isGroup g2" "isGroup g3" "isGroup g4"
  shows "split 45 (g1 @ 45 # g2 @ 45 # g3 @ 45 # g4) = [g1, g2, g3, g4]"
  using assms by (simp add: split_at_sep split_no_sep isGroup_no_hyphen)

lemma keyFormat_groups:
  assumes "isGroup g1" "isGroup g2" "isGroup g3" "isGroup g4"
  shows "keyFormat (g1 @ 45 # g2 @ 45 # g3 @ 45 # g4)"
proof -
  have l: "length g1 = 4" "length g2 = 4" "length g3 = 4" "length g4 = 4"
    using assms by (simp_all add: isGroup_def)
  show ?thesis
    using assms l by (simp add: keyFormat_def nth_append)
qed

lemma validateLicenseKey_groups:
  assumes "isGroup g1" "isGroup g2" "isGroup g3" "isGroup g4"
  shows "validateLicenseKey_priv now ls (g1 @ 45 # g2 @ 45 # g3 @ 45 # g4) =
     (if calculatedCheck (hashLoop (g1 @ 45 # g2 @ 45 # g3 @ SALT)) = g4
      then (if timeWindowPasses now g2 then replayStep ls (g1 @ 45 # g2 @ 45 # g3 @ 45 # g4)
            else (False, ls))
      else (False, ls))"
  using keyFormat_groups [OF assms] split_groups [OF assms]
  by (auto simp: validateLicenseKey_steps checksumPasses_def Let_def)

lemma replayStep_second:
  "replayStep ls key = (True, ls') \<Longrightarrow> replayStep ls' key = (False, ls')"
  by (auto simp: replayStep_def usedKeysOf_def split: if_splits)

lemma replayStep_failure: "replayStep ls key = (False, ls') \<Longrightarrow> ls' = ls"
  by (auto simp: replayStep_def split: if_splits)

lemmas license_eval = isGroup_def isKeyChar_def js_def SALT_def specCheck_def specHash_def
  upperHexDigit_def timeWindowPasses_def numSub_def numLess_def parseInt16_def stripHexPrefix_def
  hexValue_def isWhiteSpace_def replayStep_def usedKeysOf_def emptyStorage_def
  Let_def


lemma timeWindowPasses_parsed:
  "parseInt16 timeCodeHex = Some issuedMinutes \<Longrightarrow>
     timeWindowPasses now timeCodeHex
       = (0 \<le> now div 60000 - issuedMinutes \<and> now div 60000 - issuedMinutes \<le> 5)"
  by (auto simp: timeWindowPasses_def numSub_def numLess_def Let_def)

lemma timeWindowPasses_NaN: "parseInt16 timeCodeHex = None \<Longrightarrow> timeWindowPasses now timeCodeHex"
  by (simp add: timeWindowPasses_def numSub_def numLess_def Let_def)

lemma groups_F867:
  "isGroup (js ''AAAA'')" "isGroup (js ''0010'')" "isGroup (js ''BBBB'')" "isGroup (js ''F867'')"
  by (simp_all add: license_eval)

lemma specCheck_F867:
  "specCheck (js ''AAAA'' @ 45 # js ''0010'' @ 45 # js ''BBBB'' @ SALT) = js ''F867''"
  by (simp add: license_eval)

lemma validate_F867_first:
  "validateLicenseKey_priv 960000 emptyStorage
      (js ''AAAA'' @ 45 # js ''0010'' @ 45 # js ''BBBB'' @ 45 # js ''F867'')
   = (True, emptyStorage\<lparr>localseal_used_keys :=
        Some [js ''AAAA'' @ 45 # js ''0010'' @ 45 # js ''BBBB'' @ 45 # js ''F867'']\<rparr>)"
proof -
  have "timeWindowPasses 960000 (js ''0010'')"
    by (simp add: license_eval)
  then show ?thesis
    using validateLicenseKey_groups [OF groups_F867, of 960000 emptyStorage] specCheck_F867
    by (simp add: calculatedCheck_specCheck replayStep_def usedKeysOf_def emptyStorage_def)
qed

text \<open>
  C2. For a credential \<open>g1-g2-g3-g4\<close> of four groups of four characters of \<open>A-Z0-9\<close>:
  the loop of the validator computes the rolling hash \<open>hash * 31 + charCode\<close> from 0 over
  \<open>g1-g2-g3\<close> followed by the salt, on 32-bit integers that wrap around, read as signed;
  the recomputed checksum is the absolute value of that hash in upper-case hexadecimal,
  zero-padded to four characters, of which the last four are kept (its four low
  hexadecimal digits); and the validator goes on to the time-window and replay checks
  exactly when that string equals \<open>g4\<close>, returning false with \<open>localStorage\<close> untouched
  otherwise.
\<close>

theorem license_checksum_check:
  "isGroup g1 \<and> isGroup g2 \<and> isGroup g3 \<and> isGroup g4 \<Longrightarrow>
     hashLoop (g1 @ 45 # g2 @ 45 # g3 @ SALT)
       = sint (foldl (\<lambda>h c. h * 31 + of_nat c) (0 :: 32 word) (g1 @ 45 # g2 @ 45 # g3 @ SALT))
   \<and> calculatedCheck (hashLoop (g1 @ 45 # g2 @ 45 # g3 @ SALT))
       = sliceLast 4 (padStart 4 48 (toUpperCase_ascii
           (toString16 (nat \<bar>sint (specHash (g1 @ 45 # g2 @ 45 # g3 @ SALT))\<bar>))))
   \<and> calculatedCheck (hashLoop (g1 @ 45 # g2 @ 45 # g3 @ SALT))
       = specCheck (g1 @ 45 # g2 @ 45 # g3 @ SALT)
   \<and> validateLicenseKey_priv now ls (g1 @ 45 # g2 @ 45 # g3 @ 45 # g4)
       = (if specCheck (g1 @ 45 # g2 @ 45 # g3 @ SALT) = g4
          then (if timeWindowPasses now g2
                then replayStep ls (g1 @ 45 # g2 @ 45 # g3 @ 45 # g4) else (False, ls))
          else (False, ls))"
proof -
  assume g: "isGroup g1 \<and> isGroup g2 \<and> isGroup g3 \<and> isGroup g4"
  have h1: "hashLoop (g1 @ 45 # g2 @ 45 # g3 @ SALT)
       = sint (foldl (\<lambda>h c. h * 31 + of_nat c) (0 :: 32 word) (g1 @ 45 # g2 @ 45 # g3 @ SALT))"
    using hashLoop_specHash [of "g1 @ 45 # g2 @ 45 # g3 @ SALT"] by (simp add: specHash_def)
  have h2: "calculatedCheck (hashLoop (g1 @ 45 # g2 @ 45 # g3 @ SALT))
       = sliceLast 4 (padStart 4 48 (toUpperCase_ascii
           (toString16 (nat \<bar>sint (specHash (g1 @ 45 # g2 @ 45 # g3 @ SALT))\<bar>))))"
    by (simp add: calculatedCheck_def hashLoop_specHash)
  have h3: "calculatedCheck (hashLoop (g1 @ 45 # g2 @ 45 # g3 @ SALT))
       = specCheck (g1 @ 45 # g2 @ 45 # g3 @ SALT)"
    by (rule calculatedCheck_specCheck)
  have h4: "validateLicenseKey_priv now ls (g1 @ 45 # g2 @ 45 # g3 @ 45 # g4)
       = (if specCheck (g1 @ 45 # g2 @ 45 # g3 @ SALT) = g4
          then (if timeWindowPasses now g2
                then replayStep ls (g1 @ 45 # g2 @ 45 # g3 @ 45 # g4) else (False, ls))
          else (False, ls))"
    using g validateLicenseKey_groups [of g1 g2 g3 g4 now ls]
    by (simp add: calculatedCheck_specCheck)
  show ?thesis
    by (intro conjI) (rule h1, rule h2, rule h3, rule h4)
qed

text \<open>
  The credential \<open>AAAA-0010-BBBB-F867\<close>: its hash is 1593702503 (hexadecimal
  \<open>5EFDF867\<close>), the checksum \<open>F867\<close> equals the fourth group and the validation goes on;
  with \<open>0000\<close> as the fourth group it returns false.
\<close>

theorem license_checksum_check_witness:
  "(isGroup (js ''AAAA'') \<and> isGroup (js ''0010'') \<and> isGroup (js ''BBBB'') \<and> isGroup (js ''F867''))
   \<and> hashLoop (js ''AAAA'' @ 45 # js ''0010'' @ 45 # js ''BBBB'' @ SALT) = 1593702503
   \<and> calculatedCheck (hashLoop (js ''AAAA'' @ 45 # js ''0010'' @ 45 # js ''BBBB'' @ SALT)) = js ''F867''
   \<and> fst (validateLicenseKey_priv 960000 emptyStorage
        (js ''AAAA'' @ 45 # js ''0010'' @ 45 # js ''BBBB'' @ 45 # js ''F867''))"
proof -
  have g: "isGroup (js ''AAAA'') \<and> isGroup (js ''0010'') \<and> isGroup (js ''BBBB'') \<and> isGroup (js ''F867'')"
    by (simp add: groups_F867)
  have t: "timeWindowPasses 960000 (js ''0010'')"
    by (simp add: license_eval)
  have f: "foldl (\<lambda>h c. h * 31 + of_nat c) (0 :: 32 word)
             (js ''AAAA'' @ 45 # js ''0010'' @ 45 # js ''BBBB'' @ SALT) = 1593702503"
    by (simp add: js_def SALT_def)
  have r: "fst (replayStep emptyStorage
             (js ''AAAA'' @ 45 # js ''0010'' @ 45 # js ''BBBB'' @ 45 # js ''F867''))"
    by (simp add: replayStep_def usedKeysOf_def emptyStorage_def)
  note c = license_checksum_check [OF g, of 960000 emptyStorage]
  have h: "hashLoop (js ''AAAA'' @ 45 # js ''0010'' @ 45 # js ''BBBB'' @ SALT) = 1593702503"
    using c [THEN conjunct1] unfolding f by simp
  have k: "calculatedCheck (hashLoop (js ''AAAA'' @ 45 # js ''0010'' @ 45 # js ''BBBB'' @ SALT))
      = js ''F867''"
    using c [THEN conjunct2, THEN conjunct2, THEN conjunct1] specCheck_F867 by (simp only:)
  have v: "fst (validateLicenseKey_priv 960000 emptyStorage
        (js ''AAAA'' @ 45 # js ''0010'' @ 45 # js ''BBBB'' @ 45 # js ''F867''))"
    using c [THEN conjunct2, THEN conjunct2, THEN conjunct2] specCheck_F867 t r
    by (simp only: simp_thms if_True)
  show ?thesis
    using g h k v by (simp only: simp_thms)
qed

text \<open>
  C3. The time-window check at a well-formed, checksum-correct credential whose second
  group has no base-16 value: for \<open>AAAA-ZZZZ-BBBB-DA88\<close>, \<open>parseInt\<close> gives \<open>NaN\<close>, so
  \<open>diff\<close> is \<open>NaN\<close>, neither \<open>diff < 0\<close> nor \<open>diff > 5\<close> holds, and the credential
  validates at every clock value, although \<open>0 \<le> diff \<le> 5\<close> does not hold.
\<close>

theorem time_window_unparsed_group_validates:
  "keyFormat (js ''AAAA-ZZZZ-BBBB-DA88'')
   \<and> checksumPasses (js ''AAAA-ZZZZ-BBBB-DA88'')
   \<and> parseInt16 (js ''ZZZZ'') = None
   \<and> (\<forall>now. validateLicenseKey_priv now emptyStorage (js ''AAAA-ZZZZ-BBBB-DA88'')
        = (True, emptyStorage\<lparr>localseal_used_keys := Some [js ''AAAA-ZZZZ-BBBB-DA88'']\<rparr>))"
proof -
  have g: "isGroup (js ''AAAA'')" "isGroup (js ''ZZZZ'')" "isGroup (js ''BBBB'')" "isGroup (js ''DA88'')"
    by (simp_all add: license_eval)
  have k: "js ''AAAA-ZZZZ-BBBB-DA88'' = js ''AAAA'' @ 45 # js ''ZZZZ'' @ 45 # js ''BBBB'' @ 45 # js ''DA88''"
    by (simp add: js_def)
  have c: "specCheck (js ''AAAA'' @ 45 # js ''ZZZZ'' @ 45 # js ''BBBB'' @ SALT) = js ''DA88''"
    by (simp add: license_eval)
  have p: "parseInt16 (js ''ZZZZ'') = None"
    by (simp add: license_eval)
  have f: "keyFormat (js ''AAAA-ZZZZ-BBBB-DA88'')"
    unfolding k by (rule keyFormat_groups [OF g])
  have s: "checksumPasses (js ''AAAA-ZZZZ-BBBB-DA88'')"
    unfolding k using c
    by (simp add: checksumPasses_def split_groups [OF g] calculatedCheck_specCheck)
  have "validateLicenseKey_priv now emptyStorage (js ''AAAA-ZZZZ-BBBB-DA88'')
        = (True, emptyStorage\<lparr>localseal_used_keys := Some [js ''AAAA-ZZZZ-BBBB-DA88'']\<rparr>)" for now
    unfolding k
    using validateLicenseKey_groups [OF g, of now emptyStorage] c timeWindowPasses_NaN [OF p, of now]
    by (simp add: calculatedCheck_specCheck replayStep_def usedKeysOf_def emptyStorage_def)
  with f s p show ?thesis
    by blast
qed

text \<open>
  C4. Replay: when a validation succeeds, validating the same credential again fails, at
  any clock value, and leaves \<open>localStorage\<close> as the first call left it; a validation that
  fails leaves \<open>localStorage\<close> unchanged, and a failed activation leaves the whole state
  (the license status and \<open>localStorage\<close>) unchanged; the credential enters the replay set
  only in a call that returns true, after the pattern, the checksum and the time window
  have passed and the credential was not in the set; and a credential that passes the
  pattern, the checksum and the time window and is not in the set validates.
\<close>

theorem replay_rejection:
  "(validateLicenseKey_priv now ls key = (True, ls1)
      \<longrightarrow> validateLicenseKey_priv now2 ls1 key = (False, ls1))
   \<and> (validateLicenseKey_priv now ls key = (False, ls1) \<longrightarrow> ls1 = ls)
   \<and> (activateLicense now now' sm key = (False, sm1) \<longrightarrow> sm1 = sm)
   \<and> (activateLicense now now' sm key = (True, sm1)
      \<longrightarrow> activateLicense now2 now2' sm1 key = (False, sm1))
   \<and> (validateLicenseKey_priv now ls key = (r, ls1) \<and> usedKeysOf ls1 \<noteq> usedKeysOf ls
      \<longrightarrow> r \<and> keyFormat key \<and> checksumPasses key \<and> timeWindowPasses now (split 45 key ! 1)
          \<and> key \<notin> set (usedKeysOf ls) \<and> usedKeysOf ls1 = usedKeysOf ls @ [key])
   \<and> (keyFormat key \<and> checksumPasses key \<and> timeWindowPasses now (split 45 key ! 1)
        \<and> key \<notin> set (usedKeysOf ls)
      \<longrightarrow> validateLicenseKey_priv now ls key
            = (True, ls\<lparr>localseal_used_keys := Some (usedKeysOf ls @ [key])\<rparr>))"
proof -
  have c1: "validateLicenseKey_priv now ls key = (True, ls1)
      \<longrightarrow> validateLicenseKey_priv now2 ls1 key = (False, ls1)"
  proof
    assume "validateLicenseKey_priv now ls key = (True, ls1)"
    then have "replayStep ls key = (True, ls1)"
      by (simp add: validateLicenseKey_steps split: if_splits)
    then have "replayStep ls1 key = (False, ls1)"
      by (rule replayStep_second)
    then show "validateLicenseKey_priv now2 ls1 key = (False, ls1)"
      by (simp add: validateLicenseKey_steps)
  qed
  have c2: "validateLicenseKey_priv now ls key = (False, ls1) \<longrightarrow> ls1 = ls"
    by (auto simp: validateLicenseKey_steps dest: replayStep_failure split: if_splits)
  have c3: "activateLicense now now' sm key = (False, sm1) \<longrightarrow> sm1 = sm"
  proof
    assume a: "activateLicense now now' sm key = (False, sm1)"
    obtain b ls1 where v: "validateLicenseKey_priv now (storage sm) key = (b, ls1)"
      by (cases "validateLicenseKey_priv now (storage sm) key")
    with a have b: "\<not> b" and s: "sm1 = sm\<lparr>storage := ls1\<rparr>"
      by (auto simp: activateLicense_def Let_def split: if_splits bool.splits)
    from v b have "ls1 = storage sm"
      by (auto simp: validateLicenseKey_steps dest: replayStep_failure split: if_splits)
    with s show "sm1 = sm"
      by simp
  qed
  have c4: "activateLicense now now' sm key = (True, sm1)
      \<longrightarrow> activateLicense now2 now2' sm1 key = (False, sm1)"
  proof
    assume a: "activateLicense now now' sm key = (True, sm1)"
    obtain b ls1 where v: "validateLicenseKey_priv now (storage sm) key = (b, ls1)"
      by (cases "validateLicenseKey_priv now (storage sm) key")
    with a have b: "b"
      and s: "storage sm1 = ls1\<lparr>localseal_license := localseal_license (storage sm1)\<rparr>"
      by (auto simp: activateLicense_def Let_def split: if_splits bool.splits)
    from v b have "replayStep (storage sm) key = (True, ls1)"
      by (simp add: validateLicenseKey_steps split: if_splits)
    then have "key \<in> set (usedKeysOf ls1)"
      by (auto simp: replayStep_def usedKeysOf_def split: if_splits)
    then have "key \<in> set (usedKeysOf (storage sm1))"
      by (subst s) (simp add: usedKeysOf_def)
    then have "validateLicenseKey_priv now2 (storage sm1) key = (False, storage sm1)"
      by (simp add: validateLicenseKey_steps replayStep_def)
    then show "activateLicense now2 now2' sm1 key = (False, sm1)"
      by (simp add: activateLicense_def)
  qed
  have c5: "validateLicenseKey_priv now ls key = (r, ls1) \<and> usedKeysOf ls1 \<noteq> usedKeysOf ls
      \<longrightarrow> r \<and> keyFormat key \<and> checksumPasses key \<and> timeWindowPasses now (split 45 key ! 1)
          \<and> key \<notin> set (usedKeysOf ls) \<and> usedKeysOf ls1 = usedKeysOf ls @ [key]"
    by (auto simp: validateLicenseKey_steps replayStep_def usedKeysOf_def split: if_splits)
  have c6: "keyFormat key \<and> checksumPasses key \<and> timeWindowPasses now (split 45 key ! 1)
        \<and> key \<notin> set (usedKeysOf ls)
      \<longrightarrow> validateLicenseKey_priv now ls key
            = (True, ls\<lparr>localseal_used_keys := Some (usedKeysOf ls @ [key])\<rparr>)"
    by (simp add: validateLicenseKey_steps replayStep_def)
  show ?thesis
    by (rule conjI [OF c1 conjI [OF c2 conjI [OF c3 conjI [OF c4 conjI [OF c5 c6]]]]])
qed

text \<open>
  The credential \<open>AAAA-0010-BBBB-F867\<close>, issued at minute 16, on an empty
  \<open>localStorage\<close>: validated at minute 16 it succeeds and enters the replay set; validated
  again at minute 17 it fails and the storage stays as the first call left it.
\<close>

theorem replay_rejection_witness:
  "validateLicenseKey_priv 960000 emptyStorage
      (js ''AAAA'' @ 45 # js ''0010'' @ 45 # js ''BBBB'' @ 45 # js ''F867'')
     = (True, emptyStorage\<lparr>localseal_used_keys :=
          Some [js ''AAAA'' @ 45 # js ''0010'' @ 45 # js ''BBBB'' @ 45 # js ''F867'']\<rparr>)
   \<and> validateLicenseKey_priv 1020000
        (emptyStorage\<lparr>localseal_used_keys :=
          Some [js ''AAAA'' @ 45 # js ''0010'' @ 45 # js ''BBBB'' @ 45 # js ''F867'']\<rparr>)
        (js ''AAAA'' @ 45 # js ''0010'' @ 45 # js ''BBBB'' @ 45 # js ''F867'')
     = (False, emptyStorage\<lparr>localseal_used_keys :=
          Some [js ''AAAA'' @ 45 # js ''0010'' @ 45 # js ''BBBB'' @ 45 # js ''F867'']\<rparr>)"
  using validate_F867_first
    replay_rejection [of 960000 emptyStorage
      "js ''AAAA'' @ 45 # js ''0010'' @ 45 # js ''BBBB'' @ 45 # js ''F867''"
      "emptyStorage\<lparr>localseal_used_keys :=
          Some [js ''AAAA'' @ 45 # js ''0010'' @ 45 # js ''BBBB'' @ 45 # js ''F867'']\<rparr>"
      1020000]
  by blast


section \<open>Pixelation: the loops compute the block colours\<close>

lemma painted_length [simp]: "length (painted ps w d P) = length d"
  by (simp add: painted_def)

lemma painted_nth:
  "i < length d \<Longrightarrow> painted ps w d P ! i
     = (if i div 4 \<in> P \<and> i mod 4 \<noteq> 3 then d ! (blockOrigin ps w (i div 4) * 4 + i mod 4) else d ! i)"
  by (simp add: painted_def)

lemma painted_empty: "painted ps w d {} = d"
  by (rule nth_equalityI) (simp_all add: painted_nth)

lemma pixelated_length [simp]: "length (pixelated ps w d) = length d"
  by (simp add: pixelated_def)

lemma pixelated_nth:
  "i < length d \<Longrightarrow> pixelated ps w d ! i
     = (if i mod 4 \<noteq> 3 then d ! (blockOrigin ps w (i div 4) * 4 + i mod 4) else d ! i)"
  by (simp add: pixelated_def)

lemma byte_index: "k < 4 \<Longrightarrow> (p * 4 + k) div 4 = p \<and> (p * 4 + k) mod 4 = k" for k :: nat
  by simp

lemma pixel_index: "c < w \<Longrightarrow> (r * w + c) div w = r \<and> (r * w + c) mod w = c" for c :: nat
  by simp

lemma aligned_offset:
  fixes a :: nat
  assumes "0 < ps" "a mod ps = 0" "a \<le> c" "c < a + ps"
  shows "c - c mod ps = a"
proof -
  define e where "e = c - a"
  have e: "c = a + e" "e < ps"
    using assms by (simp_all add: e_def)
  have "(a + e) mod ps = (a mod ps + e) mod ps"
    by (simp add: mod_add_left_eq)
  also have "\<dots> = e"
    using assms e by simp
  finally show ?thesis
    using e by simp
qed

lemma blockOrigin_in_block:
  assumes "0 < ps" "x mod ps = 0" "y mod ps = 0" "c < w" "x \<le> c" "c < x + ps" "y \<le> r" "r < y + ps"
  shows "blockOrigin ps w (r * w + c) = y * w + x"
  using assms by (simp add: blockOrigin_def aligned_offset)

lemma blockOrigin_le: "blockOrigin ps w p \<le> p"
proof -
  have "(p div w - p div w mod ps) * w \<le> p div w * w"
    by simp
  moreover have "p mod w - p mod w mod ps \<le> p mod w"
    by simp
  ultimately have "blockOrigin ps w p \<le> p div w * w + p mod w"
    unfolding blockOrigin_def by (rule add_mono)
  then show ?thesis by simp
qed

lemma blockOrigin_idem:
  assumes "0 < ps"
  shows "blockOrigin ps w (blockOrigin ps w p) = blockOrigin ps w p"
proof (cases "w = 0")
  case True
  have "(p - p mod ps) mod ps = 0"
    by (simp add: minus_mod_eq_mult_div)
  with True show ?thesis
    by (simp add: blockOrigin_def)
next
  case False
  let ?r = "p div w - p div w mod ps" and ?c = "p mod w - p mod w mod ps"
  have c: "?c < w"
    using False by (simp add: less_imp_diff_less)
  have rm: "?r mod ps = 0"
    by (simp add: minus_mod_eq_mult_div)
  have cm: "?c mod ps = 0"
    by (simp add: minus_mod_eq_mult_div)
  have e: "blockOrigin ps w p = ?r * w + ?c"
    by (simp only: blockOrigin_def)
  have "blockOrigin ps w (?r * w + ?c) = ?r * w + ?c"
    unfolding blockOrigin_def [of ps w "?r * w + ?c"] using pixel_index [OF c, of ?r] rm cm
    by simp
  then show ?thesis
    unfolding e .
qed

lemma paint_one:
  assumes p: "p * 4 + 3 < length d"
  shows "(painted ps w d P)[p * 4 := d ! (blockOrigin ps w p * 4),
            p * 4 + 1 := d ! (blockOrigin ps w p * 4 + 1),
            p * 4 + 2 := d ! (blockOrigin ps w p * 4 + 2)]
         = painted ps w d (insert p P)"
proof (rule nth_equalityI)
  show "length ((painted ps w d P)[p * 4 := d ! (blockOrigin ps w p * 4),
            p * 4 + 1 := d ! (blockOrigin ps w p * 4 + 1),
            p * 4 + 2 := d ! (blockOrigin ps w p * 4 + 2)]) = length (painted ps w d (insert p P))"
    by simp
next
  fix j
  assume "j < length ((painted ps w d P)[p * 4 := d ! (blockOrigin ps w p * 4),
            p * 4 + 1 := d ! (blockOrigin ps w p * 4 + 1),
            p * 4 + 2 := d ! (blockOrigin ps w p * 4 + 2)])"
  then have j: "j < length d" by simp
  show "(painted ps w d P)[p * 4 := d ! (blockOrigin ps w p * 4),
            p * 4 + 1 := d ! (blockOrigin ps w p * 4 + 1),
            p * 4 + 2 := d ! (blockOrigin ps w p * 4 + 2)] ! j
         = painted ps w d (insert p P) ! j"
  proof (cases "j div 4 = p")
    case False
    then have "j \<noteq> p * 4" "j \<noteq> p * 4 + 1" "j \<noteq> p * 4 + 2"
      by auto
    with False j show ?thesis
      by (simp add: painted_nth)
  next
    case True
    then have e: "j = p * 4 + j mod 4"
      by (metis div_mult_mod_eq)
    have "j mod 4 < 4" by simp
    then consider "j mod 4 = 0" | "j mod 4 = 1" | "j mod 4 = 2" | "j mod 4 = 3"
      by linarith
    then show ?thesis
    proof cases
      case 1
      with e have "j = p * 4" by simp
      with p 1 True show ?thesis by (simp add: painted_nth)
    next
      case 2
      with e have "j = p * 4 + 1" by simp
      with p 2 True show ?thesis by (simp add: painted_nth)
    next
      case 3
      with e have "j = p * 4 + 2" by simp
      with p 3 True show ?thesis by (simp add: painted_nth)
    next
      case 4
      with e have "j = p * 4 + 3" by simp
      with p 4 True show ?thesis by (simp add: painted_nth)
    qed
  qed
qed

lemma painted_at_origin:
  assumes "0 < ps" "x mod ps = 0" "y mod ps = 0" "x < w" "(y * w + x) * 4 + k < length d" "k < 4"
  shows "rd (painted ps w d P) ((y * w + x) * 4 + k) = d ! ((y * w + x) * 4 + k)"
proof -
  have "blockOrigin ps w (y * w + x) = y * w + x"
    using assms by (intro blockOrigin_in_block) simp_all
  moreover note byte_index [OF assms(6), of "y * w + x"]
  ultimately show ?thesis
    using assms by (simp add: rd_def painted_nth del: distrib_right_numeral distrib_left_numeral)
qed

lemma interval_first: "a < b \<Longrightarrow> {a..<b} = insert a {Suc a..<b}" for a :: nat
  by auto

lemma rowSeg_empty: "b \<le> a \<Longrightarrow> rowSeg w r a b = {}"
  by (simp add: rowSeg_def)

lemma rowSeg_step: "a < b \<Longrightarrow> insert (r * w + a) (rowSeg w r (Suc a) b) = rowSeg w r a b"
  by (simp add: rowSeg_def interval_first [of a b])

lemma rect_empty_rows: "r1 \<le> r0 \<Longrightarrow> rect w r0 r1 a b = {}"
  by (simp add: rect_def)

lemma rect_empty_cols: "b \<le> a \<Longrightarrow> rect w r0 r1 a b = {}"
  by (simp add: rect_def rowSeg_empty)

lemma rect_row_step: "r0 < r1 \<Longrightarrow> rowSeg w r0 a b \<union> rect w (Suc r0) r1 a b = rect w r0 r1 a b"
  by (simp add: rect_def interval_first [of r0 r1])

lemma rowSeg_join: "a \<le> m \<Longrightarrow> m \<le> b \<Longrightarrow> rowSeg w r a m \<union> rowSeg w r m b = rowSeg w r a b"
  by (simp add: rowSeg_def image_Un [symmetric] ivl_disj_un_two)

lemma rect_col_join:
  "a \<le> m \<Longrightarrow> m \<le> b \<Longrightarrow> rect w r0 r1 a m \<union> rect w r0 r1 m b = rect w r0 r1 a b"
  by (simp add: rect_def UN_Un_distrib [symmetric] rowSeg_join)

lemma rect_row_join:
  "r0 \<le> m \<Longrightarrow> m \<le> r1 \<Longrightarrow> rect w r0 m a b \<union> rect w m r1 a b = rect w r0 r1 a b"
  by (simp add: rect_def UN_Un [symmetric] ivl_disj_un_two)


lemma pixel_in_range:
  fixes c :: nat
  assumes "c < w" "r < h"
  shows "(r * w + c) * 4 + 3 < w * h * 4"
proof -
  have "r * w + c < r * w + w"
    using assms by simp
  also have "\<dots> = Suc r * w"
    by simp
  also have "\<dots> \<le> h * w"
    using assms by (intro mult_le_mono1) simp
  finally have "r * w + c < w * h"
    by (simp add: mult.commute)
  moreover have "n < m \<Longrightarrow> n * 4 + 3 < m * 4" for n m :: nat
    by arith
  ultimately show ?thesis
    by blast
qed

lemma dxLoop_painted:
  assumes ps: "0 < ps" and ax: "x mod ps = 0" and ay: "y mod ps = 0"
    and dy: "y + dy < h" "dy < ps" and len: "length d = w * h * 4"
    and rgb: "r = d ! ((y * w + x) * 4)" "g = d ! ((y * w + x) * 4 + 1)"
      "b = d ! ((y * w + x) * 4 + 2)"
  shows "dxLoop ps w x y dy r g b dx (painted ps w d P)
         = painted ps w d (P \<union> rowSeg w (y + dy) (x + dx) (min (x + ps) w))"
proof (induction "ps - dx" arbitrary: dx P rule: less_induct)
  case less
  show ?case
  proof (cases "dx < ps \<and> x + dx < w")
    case False
    then have e: "rowSeg w (y + dy) (x + dx) (min (x + ps) w) = {}"
      by (intro rowSeg_empty) auto
    show ?thesis
      by (subst dxLoop.simps) (simp only: False if_False e Un_empty_right)
  next
    case True
    let ?p = "(y + dy) * w + (x + dx)"
    have step: "dxLoop ps w x y dy r g b dx (painted ps w d P)
        = dxLoop ps w x y dy r g b (dx + 1)
            ((painted ps w d P)[?p * 4 := r, ?p * 4 + 1 := g, ?p * 4 + 2 := b])"
      by (subst dxLoop.simps) (simp only: True Let_def if_True simp_thms)
    have bo: "blockOrigin ps w ?p = y * w + x"
      using ps ax ay dy True by (intro blockOrigin_in_block) simp_all
    have pr: "?p * 4 + 3 < length d"
      unfolding len using True dy by (intro pixel_in_range) simp_all
    have upd: "(painted ps w d P)[?p * 4 := r, ?p * 4 + 1 := g, ?p * 4 + 2 := b]
        = painted ps w d (insert ?p P)"
      using paint_one [OF pr, of ps w P] by (simp only: bo rgb)
    have "ps - (dx + 1) < ps - dx"
      using True by arith
    then have ih: "dxLoop ps w x y dy r g b (dx + 1) (painted ps w d (insert ?p P))
        = painted ps w d (insert ?p P \<union> rowSeg w (y + dy) (x + (dx + 1)) (min (x + ps) w))"
      by (rule less.hyps)
    have "x + dx < min (x + ps) w"
      using True by simp
    then have "insert ?p (rowSeg w (y + dy) (Suc (x + dx)) (min (x + ps) w))
        = rowSeg w (y + dy) (x + dx) (min (x + ps) w)"
      by (rule rowSeg_step)
    then have "insert ?p P \<union> rowSeg w (y + dy) (x + (dx + 1)) (min (x + ps) w)
        = P \<union> rowSeg w (y + dy) (x + dx) (min (x + ps) w)"
      by auto
    with step upd ih show ?thesis
      by (simp only:)
  qed
qed

lemma dyLoop_painted:
  assumes ps: "0 < ps" and ax: "x mod ps = 0" and ay: "y mod ps = 0"
    and len: "length d = w * h * 4"
    and rgb: "r = d ! ((y * w + x) * 4)" "g = d ! ((y * w + x) * 4 + 1)"
      "b = d ! ((y * w + x) * 4 + 2)"
  shows "dyLoop ps w h x y r g b dy (painted ps w d P)
         = painted ps w d (P \<union> rect w (y + dy) (min (y + ps) h) x (min (x + ps) w))"
proof (induction "ps - dy" arbitrary: dy P rule: less_induct)
  case less
  show ?case
  proof (cases "dy < ps \<and> y + dy < h")
    case False
    then have e: "rect w (y + dy) (min (y + ps) h) x (min (x + ps) w) = {}"
      by (intro rect_empty_rows) auto
    show ?thesis
      by (subst dyLoop.simps) (simp only: False if_False e Un_empty_right)
  next
    case True
    have step: "dyLoop ps w h x y r g b dy (painted ps w d P)
        = dyLoop ps w h x y r g b (dy + 1) (dxLoop ps w x y dy r g b 0 (painted ps w d P))"
      by (subst dyLoop.simps) (simp only: True if_True simp_thms)
    have row: "dxLoop ps w x y dy r g b 0 (painted ps w d P)
        = painted ps w d (P \<union> rowSeg w (y + dy) x (min (x + ps) w))"
      using dxLoop_painted [OF ps ax ay _ _ len rgb, of dy 0 P] True by simp
    have "ps - (dy + 1) < ps - dy"
      using True by arith
    then have ih: "dyLoop ps w h x y r g b (dy + 1)
          (painted ps w d (P \<union> rowSeg w (y + dy) x (min (x + ps) w)))
        = painted ps w d (P \<union> rowSeg w (y + dy) x (min (x + ps) w)
            \<union> rect w (y + (dy + 1)) (min (y + ps) h) x (min (x + ps) w))"
      by (rule less.hyps)
    have "y + dy < min (y + ps) h"
      using True by simp
    then have "rowSeg w (y + dy) x (min (x + ps) w)
          \<union> rect w (Suc (y + dy)) (min (y + ps) h) x (min (x + ps) w)
        = rect w (y + dy) (min (y + ps) h) x (min (x + ps) w)"
      by (rule rect_row_step)
    then have "P \<union> rowSeg w (y + dy) x (min (x + ps) w)
            \<union> rect w (y + (dy + 1)) (min (y + ps) h) x (min (x + ps) w)
        = P \<union> rect w (y + dy) (min (y + ps) h) x (min (x + ps) w)"
      by auto
    with step row ih show ?thesis
      by (simp only:)
  qed
qed

lemma xLoop_painted:
  assumes ps: "0 < ps" and ay: "y mod ps = 0" and y: "y < h" and len: "length d = w * h * 4"
  shows "x mod ps = 0 \<Longrightarrow> xLoop ps w h y x (painted ps w d P)
         = Some (painted ps w d (P \<union> rect w y (min (y + ps) h) x w))"
proof (induction "w - x" arbitrary: x P rule: less_induct)
  case less
  show ?case
  proof (cases "x < w")
    case False
    then have "rect w y (min (y + ps) h) x w = {}"
      by (intro rect_empty_cols) simp
    with False show ?thesis
      by (subst xLoop_unfold) simp
  next
    case True
    let ?i = "(y * w + x) * 4"
    let ?r = "d ! ?i" and ?g = "d ! (?i + 1)" and ?b = "d ! (?i + 2)"
    have ir: "?i + 3 < length d"
      unfolding len using True y by (intro pixel_in_range)
    have r: "rd (painted ps w d P) ?i = ?r"
      using painted_at_origin [OF ps less.prems ay True, of 0 d P] ir by simp
    have g: "rd (painted ps w d P) (?i + 1) = ?g"
      using painted_at_origin [OF ps less.prems ay True, of 1 d P] ir by simp
    have b: "rd (painted ps w d P) (?i + 2) = ?b"
      using painted_at_origin [OF ps less.prems ay True, of 2 d P] ir by simp
    have step: "xLoop ps w h y x (painted ps w d P)
        = xLoop ps w h y (x + ps) (dyLoop ps w h x y ?r ?g ?b 0 (painted ps w d P))"
      by (subst xLoop_unfold) (simp only: True Let_def if_True r g b)
    have blk: "dyLoop ps w h x y ?r ?g ?b 0 (painted ps w d P)
        = painted ps w d (P \<union> rect w y (min (y + ps) h) x (min (x + ps) w))"
      using dyLoop_painted [OF ps less.prems ay len refl refl refl, of 0 P] by simp
    have "w - (x + ps) < w - x" "(x + ps) mod ps = 0"
      using True ps less.prems by simp_all
    then have ih: "xLoop ps w h y (x + ps)
          (painted ps w d (P \<union> rect w y (min (y + ps) h) x (min (x + ps) w)))
        = Some (painted ps w d (P \<union> rect w y (min (y + ps) h) x (min (x + ps) w)
            \<union> rect w y (min (y + ps) h) (x + ps) w))"
      by (rule less.hyps)
    have "rect w y (min (y + ps) h) x (min (x + ps) w) \<union> rect w y (min (y + ps) h) (x + ps) w
        = rect w y (min (y + ps) h) x w"
    proof (cases "x + ps \<le> w")
      case True
      then show ?thesis
        using rect_col_join [of x "x + ps" w w y "min (y + ps) h"] by (simp add: min_def)
    next
      case False
      then show ?thesis
        by (simp add: min_def rect_empty_cols)
    qed
    then have "P \<union> rect w y (min (y + ps) h) x (min (x + ps) w)
            \<union> rect w y (min (y + ps) h) (x + ps) w
        = P \<union> rect w y (min (y + ps) h) x w"
      by auto
    with step blk ih show ?thesis
      by (simp only:)
  qed
qed

lemma yLoop_painted:
  assumes ps: "0 < ps" and len: "length d = w * h * 4"
  shows "y mod ps = 0 \<Longrightarrow> yLoop ps w h y (painted ps w d P)
         = Some (painted ps w d (P \<union> rect w y h 0 w))"
proof (induction "h - y" arbitrary: y P rule: less_induct)
  case less
  show ?case
  proof (cases "y < h")
    case False
    then have "rect w y h 0 w = {}"
      by (intro rect_empty_rows) simp
    with False show ?thesis
      by (subst yLoop_unfold) simp
  next
    case True
    have band: "xLoop ps w h y 0 (painted ps w d P)
        = Some (painted ps w d (P \<union> rect w y (min (y + ps) h) 0 w))"
      using xLoop_painted [OF ps less.prems True len, of 0 P] by simp
    have step: "yLoop ps w h y (painted ps w d P)
        = yLoop ps w h (y + ps) (painted ps w d (P \<union> rect w y (min (y + ps) h) 0 w))"
      by (subst yLoop_unfold) (simp add: True band)
    have "h - (y + ps) < h - y" "(y + ps) mod ps = 0"
      using True ps less.prems by simp_all
    then have ih: "yLoop ps w h (y + ps) (painted ps w d (P \<union> rect w y (min (y + ps) h) 0 w))
        = Some (painted ps w d (P \<union> rect w y (min (y + ps) h) 0 w \<union> rect w (y + ps) h 0 w))"
      by (rule less.hyps)
    have "rect w y (min (y + ps) h) 0 w \<union> rect w (y + ps) h 0 w = rect w y h 0 w"
    proof (cases "y + ps \<le> h")
      case True
      then show ?thesis
        using rect_row_join [of y "y + ps" h w 0 w] by (simp add: min_def)
    next
      case False
      then show ?thesis
        by (simp add: min_def rect_empty_rows)
    qed
    then have "P \<union> rect w y (min (y + ps) h) 0 w \<union> rect w (y + ps) h 0 w = P \<union> rect w y h 0 w"
      by auto
    with step ih show ?thesis
      by (simp only:)
  qed
qed

lemma rect_all:
  assumes "p < w * h"
  shows "p \<in> rect w 0 h 0 w"
proof -
  have w: "0 < w"
    using assms by (cases w) simp_all
  have "p div w < h"
    using assms w by (simp add: less_mult_imp_div_less mult.commute)
  moreover have "p mod w < w"
    using w by simp
  moreover have "p = p div w * w + p mod w"
    by simp
  ultimately show ?thesis
    unfolding rect_def rowSeg_def by (metis UN_I atLeastLessThan_iff imageI le0)
qed

lemma painted_all:
  assumes "length d = w * h * 4"
  shows "painted ps w d (rect w 0 h 0 w) = pixelated ps w d"
proof (rule nth_equalityI)
  show "length (painted ps w d (rect w 0 h 0 w)) = length (pixelated ps w d)"
    by simp
next
  fix i
  assume "i < length (painted ps w d (rect w 0 h 0 w))"
  then have i: "i < length d"
    by simp
  then have "i div 4 < w * h"
    using assms by simp
  then have "i div 4 \<in> rect w 0 h 0 w"
    by (rule rect_all)
  with i show "painted ps w d (rect w 0 h 0 w) ! i = pixelated ps w d ! i"
    by (simp add: painted_nth pixelated_nth)
qed

lemma yLoop_pixelated:
  assumes "0 < ps" "length d = w * h * 4"
  shows "yLoop ps w h 0 d = Some (pixelated ps w d)"
  using yLoop_painted [OF assms, of 0 "{}"] painted_all [OF assms(2), of ps]
  by (simp add: painted_empty)

lemma pixelate_priv_pixelated:
  assumes "0 < ps" "length (data img) = width img * height img * 4"
  shows "pixelate_priv img ps = Some (img\<lparr>data := pixelated ps (width img) (data img)\<rparr>)"
  using yLoop_pixelated [OF assms] by (simp add: pixelate_priv_def)

lemma pixelated_idem:
  assumes ps: "0 < ps"
  shows "pixelated ps w (pixelated ps w d) = pixelated ps w d"
proof (rule nth_equalityI)
  show "length (pixelated ps w (pixelated ps w d)) = length (pixelated ps w d)"
    by simp
next
  fix i
  assume "i < length (pixelated ps w (pixelated ps w d))"
  then have i: "i < length d"
    by simp
  let ?o = "blockOrigin ps w (i div 4) * 4 + i mod 4"
  have "blockOrigin ps w (i div 4) \<le> i div 4"
    by (rule blockOrigin_le)
  then have "?o \<le> i"
    by arith
  then have o: "?o < length d"
    using i by simp
  have m: "i mod 4 < 4"
    by simp
  have od: "?o div 4 = blockOrigin ps w (i div 4)" and om: "?o mod 4 = i mod 4"
    using byte_index [OF m, of "blockOrigin ps w (i div 4)"] by simp_all
  show "pixelated ps w (pixelated ps w d) ! i = pixelated ps w d ! i"
  proof (cases "i mod 4 = 3")
    case True
    with i show ?thesis
      by (simp add: pixelated_nth)
  next
    case False
    have "pixelated ps w (pixelated ps w d) ! i = pixelated ps w d ! ?o"
      using i False by (simp add: pixelated_nth)
    also have "\<dots> = d ! (blockOrigin ps w (blockOrigin ps w (i div 4)) * 4 + i mod 4)"
      using False by (simp only: pixelated_nth [OF o] od om if_True simp_thms)
    also have "\<dots> = d ! ?o"
      by (simp only: blockOrigin_idem [OF ps])
    also have "\<dots> = pixelated ps w d ! i"
      using i False by (simp add: pixelated_nth)
    finally show ?thesis .
  qed
qed


section \<open>Premultiplied colour\<close>

lemma premultiply_unat: "unat (premultiply a c) = (unat c * unat a * 2 + 255) div 510"
proof -
  have "unat c < 256" "unat a < 256"
    using unsigned_less [of c] unsigned_less [of a] by simp_all
  then have "unat c * unat a \<le> 255 * 255"
    by (intro mult_mono) simp_all
  then have "(unat c * unat a * 2 + 255) div 510 < 256"
    by simp
  then show ?thesis
    by (simp add: premultiply_def unat_of_nat)
qed

lemma unpremultiply_unat:
  "a \<noteq> 0 \<Longrightarrow> unat (unpremultiply a p) = min 255 ((unat p * 510 + unat a) div (2 * unat a))"
  by (simp add: unpremultiply_def unat_of_nat)

lemma div_bounds:
  fixes n d :: nat
  assumes "0 < d"
  shows "d * (n div d) \<le> n \<and> n < d * (n div d) + d"
  using assms div_times_less_eq_dividend [of n d] dividend_less_div_times [of d n]
  by (simp add: mult.commute)

lemma quantise_nat:
  fixes A S :: nat
  assumes A: "0 < A" "A \<le> 255" and S: "S \<le> 255"
  defines "u \<equiv> min 255 ((S * 510 + A) div (2 * A))"
  shows "min 255 ((((u * A * 2 + 255) div 510) * 510 + A) div (2 * A)) = u"
proof (cases "S < A")
  case True
  define v where "v = (S * 510 + A) div (2 * A)"
  define X where "X = A * v"
  have p: "0 < 2 * A"
    using A by simp
  have e: "(2 * A) * v = 2 * X"
    by (simp add: X_def)
  have "(2 * A) * v \<le> S * 510 + A \<and> S * 510 + A < (2 * A) * v + 2 * A"
    unfolding v_def using p by (rule div_bounds)
  then have b: "2 * X \<le> S * 510 + A" "S * 510 + A < 2 * X + 2 * A"
    unfolding e by blast+
  have "2 * X < 512 * A"
    using b True by linarith
  then have "A * v < A * 256"
    unfolding X_def by linarith
  then have "v < 256"
    by simp
  then have u: "u = v"
    by (simp add: u_def v_def)
  have "2 * X < 510 * S + 256"
    using b A by linarith
  then have x: "X < 255 * S + 128"
    by arith
  have "(2 * X + 255) div 510 = S"
  proof (rule div_nat_eqI)
    show "510 * S \<le> 2 * X + 255"
      using b A by linarith
    show "2 * X + 255 < 510 * Suc S"
      using x by simp
  qed
  moreover have "u * A * 2 = 2 * X"
    by (simp add: u X_def)
  ultimately have q: "(u * A * 2 + 255) div 510 = S"
    by (simp only:)
  show ?thesis
    unfolding q by (simp add: u_def)
next
  case False
  have "255 * (2 * A) \<le> S * 510 + A"
    using False by simp
  then have "255 \<le> (S * 510 + A) div (2 * A)"
    using A by (simp add: less_eq_div_iff_mult_less_eq)
  then have u: "u = 255"
    by (simp add: u_def)
  have "(255 * A * 2 + 255) div 510 = A"
    by (intro div_nat_eqI) simp_all
  moreover have "(A * 510 + A) div (2 * A) = 255"
    using A by (intro div_nat_eqI) simp_all
  ultimately show ?thesis
    by (simp add: u)
qed

lemma unpremultiply_premultiply:
  "unpremultiply a (premultiply a (unpremultiply a s)) = unpremultiply a s"
proof (cases "a = 0")
  case True
  then show ?thesis
    by (simp add: unpremultiply_def)
next
  case False
  have "unat a < 2 ^ LENGTH(8)" "unat s < 2 ^ LENGTH(8)"
    by (rule unsigned_less)+
  then have A: "0 < unat a" "unat a \<le> 255" and S: "unat s \<le> 255"
    using False by (simp_all add: unat_gt_0)
  have "unat (unpremultiply a (premultiply a (unpremultiply a s))) = unat (unpremultiply a s)"
    using quantise_nat [OF A S]
    by (simp only: unpremultiply_unat [OF False] premultiply_unat)
  then show ?thesis
    by (simp only: word_unat_eq_iff)
qed

section \<open>Region redaction on the canvas\<close>

lemma getImageData_ok:
  assumes "inLongRange sx" "inLongRange sy" "inLongRange sw" "inLongRange sh"
    and "sw \<noteq> 0" "sh \<noteq> 0" and "nat \<bar>sw\<bar> * nat \<bar>sh\<bar> * 4 \<le> cv_limit c"
  shows "\<exists>img. getImageData c sx sy sw sh = Inr img \<and> width img = nat \<bar>sw\<bar> \<and> height img = nat \<bar>sh\<bar>
           \<and> length (data img) = width img * height img * 4"
  using assms by (simp add: getImageData_def Let_def)

lemma getImageData_error:
  assumes "\<not> (inLongRange sx \<and> inLongRange sy \<and> inLongRange sw \<and> inLongRange sh
             \<and> sw \<noteq> 0 \<and> sh \<noteq> 0 \<and> nat \<bar>sw\<bar> * nat \<bar>sh\<bar> * 4 \<le> cv_limit c)"
  shows "getImageData c sx sy sw sh = Inl TypeError \<or> getImageData c sx sy sw sh = Inl IndexSizeError
           \<or> getImageData c sx sy sw sh = Inl RangeError"
  using assms by (auto simp: getImageData_def Let_def)

lemma putImageData_dims [simp]:
  "cv_width (putImageData c img dx dy) = cv_width c"
  "cv_height (putImageData c img dx dy) = cv_height c"
  "length (cv_pixels (putImageData c img dx dy)) = length (cv_pixels c)"
  "cv_limit (putImageData c img dx dy) = cv_limit c"
  by (simp_all add: putImageData_def)

lemma putImageData_nth:
  "j < length (cv_pixels c) \<Longrightarrow> cv_pixels (putImageData c img dx dy) ! j
     = (if 0 \<le> int (j div 4 mod cv_width c) - dx
          \<and> int (j div 4 mod cv_width c) - dx < int (width img)
          \<and> 0 \<le> int (j div 4 div cv_width c) - dy
          \<and> int (j div 4 div cv_width c) - dy < int (height img)
        then if j mod 4 = 3
             then rd (data img) ((nat (int (j div 4 div cv_width c) - dy) * width img
                                   + nat (int (j div 4 mod cv_width c) - dx)) * 4 + 3)
             else premultiply
                    (rd (data img) ((nat (int (j div 4 div cv_width c) - dy) * width img
                                      + nat (int (j div 4 mod cv_width c) - dx)) * 4 + 3))
                    (rd (data img) ((nat (int (j div 4 div cv_width c) - dy) * width img
                                      + nat (int (j div 4 mod cv_width c) - dx)) * 4 + j mod 4))
        else cv_pixels c ! j)"
  by (simp add: putImageData_def Let_def)

lemma putImageData_wellFormed: "wellFormed c \<Longrightarrow> wellFormed (putImageData c img dx dy)"
  by (simp add: wellFormed_def)

lemma readable_putImageData [simp]: "readable (putImageData c img dx dy) box = readable c box"
  by (simp add: readable_def)

lemma blurRegion_ok:
  assumes ps: "0 < ps" and rb: "readable c box"
  shows "\<exists>img. getImageData c (x0 box) (y0 box) (x1 box - x0 box) (y1 box - y0 box) = Inr img
           \<and> length (data img) = width img * height img * 4
           \<and> blurRegion ps c box
               = Some (Inr (putImageData c (img\<lparr>data := pixelated ps (width img) (data img)\<rparr>)
                              (x0 box) (y0 box)))"
proof -
  have "\<exists>img. getImageData c (x0 box) (y0 box) (x1 box - x0 box) (y1 box - y0 box) = Inr img
      \<and> width img = nat \<bar>x1 box - x0 box\<bar> \<and> height img = nat \<bar>y1 box - y0 box\<bar>
      \<and> length (data img) = width img * height img * 4"
    using rb by (intro getImageData_ok) (simp_all add: readable_def longArgs_def)
  then obtain img where g: "getImageData c (x0 box) (y0 box) (x1 box - x0 box) (y1 box - y0 box) = Inr img"
    and l: "length (data img) = width img * height img * 4"
    by blast
  have "blurRegion ps c box
      = Some (Inr (putImageData c (img\<lparr>data := pixelated ps (width img) (data img)\<rparr>)
                     (x0 box) (y0 box)))"
    by (simp add: blurRegion_def g pixelate_priv_pixelated [OF ps l] Let_def)
  with g l show ?thesis
    by blast
qed

lemma blurRegion_error:
  assumes "\<not> readable c box"
  shows "blurRegion ps c box = Some (Inl TypeError) \<or> blurRegion ps c box = Some (Inl IndexSizeError)
           \<or> blurRegion ps c box = Some (Inl RangeError)"
proof -
  have "\<not> (inLongRange (x0 box) \<and> inLongRange (y0 box) \<and> inLongRange (x1 box - x0 box)
       \<and> inLongRange (y1 box - y0 box) \<and> x1 box - x0 box \<noteq> 0 \<and> y1 box - y0 box \<noteq> 0
       \<and> nat \<bar>x1 box - x0 box\<bar> * nat \<bar>y1 box - y0 box\<bar> * 4 \<le> cv_limit c)"
    using assms by (simp add: readable_def longArgs_def)
  from getImageData_error [OF this] show ?thesis
    by (auto simp: blurRegion_def Let_def)
qed

lemma blurEach_ok:
  assumes ps: "0 < ps"
  shows "(\<forall>b \<in> set boxes. readable c (b_bbox b)) \<Longrightarrow>
     \<exists>c'. blurEach ps c boxes = Some (Inr c') \<and> cv_width c' = cv_width c
          \<and> cv_height c' = cv_height c \<and> length (cv_pixels c') = length (cv_pixels c)"
proof (induction boxes arbitrary: c)
  case Nil
  then show ?case by simp
next
  case (Cons b boxes)
  then have rb: "readable c (b_bbox b)"
    by simp
  obtain img where r: "blurRegion ps c (b_bbox b)
      = Some (Inr (putImageData c (img\<lparr>data := pixelated ps (width img) (data img)\<rparr>)
                     (x0 (b_bbox b)) (y0 (b_bbox b))))"
    using blurRegion_ok [OF ps rb] by blast
  let ?c1 = "putImageData c (img\<lparr>data := pixelated ps (width img) (data img)\<rparr>)
                     (x0 (b_bbox b)) (y0 (b_bbox b))"
  from Cons.prems
  have "\<forall>b \<in> set boxes. readable ?c1 (b_bbox b)"
    by simp
  from Cons.IH [OF this]
  obtain c' where "blurEach ps ?c1 boxes = Some (Inr c')" "cv_width c' = cv_width ?c1"
      "cv_height c' = cv_height ?c1" "length (cv_pixels c') = length (cv_pixels ?c1)"
    by blast
  with r show ?case
    by simp
qed

lemma blurEach_error:
  assumes ps: "0 < ps"
  shows "(\<exists>b \<in> set boxes. \<not> readable c (b_bbox b)) \<Longrightarrow>
     blurEach ps c boxes = Some (Inl TypeError) \<or> blurEach ps c boxes = Some (Inl IndexSizeError)
       \<or> blurEach ps c boxes = Some (Inl RangeError)"
proof (induction boxes arbitrary: c)
  case Nil
  then show ?case by simp
next
  case (Cons b boxes)
  show ?case
  proof (cases "readable c (b_bbox b)")
    case False
    from blurRegion_error [OF this, of ps] show ?thesis
      by auto
  next
    case True
    obtain img where r: "blurRegion ps c (b_bbox b)
        = Some (Inr (putImageData c (img\<lparr>data := pixelated ps (width img) (data img)\<rparr>)
                       (x0 (b_bbox b)) (y0 (b_bbox b))))"
      using blurRegion_ok [OF ps True] by blast
    let ?c1 = "putImageData c (img\<lparr>data := pixelated ps (width img) (data img)\<rparr>)
                       (x0 (b_bbox b)) (y0 (b_bbox b))"
    from Cons.prems True have "\<exists>b \<in> set boxes. \<not> readable ?c1 (b_bbox b)"
      by auto
    from Cons.IH [OF this] r show ?thesis
      by simp
  qed
qed

lemma canvas_coords:
  assumes wf: "wellFormed c" and j: "j < length (cv_pixels c)"
  shows "j div 4 mod cv_width c < cv_width c \<and> j div 4 div cv_width c < cv_height c"
proof -
  have p: "j div 4 < cv_width c * cv_height c"
    using wf j by (simp add: wellFormed_def)
  then have w: "0 < cv_width c"
    by (cases "cv_width c") simp_all
  moreover have "j div 4 div cv_width c < cv_height c"
    using p w by (simp add: less_mult_imp_div_less mult.commute)
  ultimately show ?thesis
    by simp
qed

lemma putImageData_outside:
  assumes wf: "wellFormed c"
    and out: "int (cv_width c) \<le> dx \<or> dx + int (width img) \<le> 0
              \<or> int (cv_height c) \<le> dy \<or> dy + int (height img) \<le> 0"
  shows "putImageData c img dx dy = c"
proof -
  have "cv_pixels (putImageData c img dx dy) = cv_pixels c"
  proof (rule nth_equalityI)
    show "length (cv_pixels (putImageData c img dx dy)) = length (cv_pixels c)"
      by simp
  next
    fix j
    assume "j < length (cv_pixels (putImageData c img dx dy))"
    then have j: "j < length (cv_pixels c)"
      by simp
    note canvas_coords [OF wf j]
    with out have n: "\<not> (0 \<le> int (j div 4 mod cv_width c) - dx
          \<and> int (j div 4 mod cv_width c) - dx < int (width img)
          \<and> 0 \<le> int (j div 4 div cv_width c) - dy
          \<and> int (j div 4 div cv_width c) - dy < int (height img))"
      by linarith
    show "cv_pixels (putImageData c img dx dy) ! j = cv_pixels c ! j"
      by (simp only: putImageData_nth [OF j] n if_False simp_thms)
  qed
  then show ?thesis
    by (simp add: putImageData_def)
qed

lemma putImageData_twice:
  "putImageData (putImageData c img dx dy) img dx dy = putImageData c img dx dy"
proof -
  have "cv_pixels (putImageData (putImageData c img dx dy) img dx dy)
      = cv_pixels (putImageData c img dx dy)"
  proof (rule nth_equalityI)
    show "length (cv_pixels (putImageData (putImageData c img dx dy) img dx dy))
        = length (cv_pixels (putImageData c img dx dy))"
      by simp
  next
    fix j
    assume "j < length (cv_pixels (putImageData (putImageData c img dx dy) img dx dy))"
    then have j: "j < length (cv_pixels c)"
      by simp
    then have j1: "j < length (cv_pixels (putImageData c img dx dy))"
      by simp
    show "cv_pixels (putImageData (putImageData c img dx dy) img dx dy) ! j
        = cv_pixels (putImageData c img dx dy) ! j"
    proof (cases "0 \<le> int (j div 4 mod cv_width c) - dx
          \<and> int (j div 4 mod cv_width c) - dx < int (width img)
          \<and> 0 \<le> int (j div 4 div cv_width c) - dy
          \<and> int (j div 4 div cv_width c) - dy < int (height img)")
      case True
      show ?thesis
        by (simp only: putImageData_nth [OF j1] putImageData_nth [OF j] putImageData_dims
            True if_True simp_thms)
    next
      case False
      show ?thesis
        by (simp only: putImageData_nth [OF j1] putImageData_dims False if_False simp_thms)
    qed
  qed
  then show ?thesis
    by (simp add: putImageData_def)
qed


lemma image_coords:
  fixes i :: nat
  assumes "i < w * h * 4"
  shows "i div 4 mod w < w \<and> i div 4 div w < h \<and> (i div 4 div w * w + i div 4 mod w) * 4 + i mod 4 = i"
proof -
  have p: "i div 4 < w * h"
    using assms by simp
  then have w: "0 < w"
    by (cases w) simp_all
  have "i div 4 div w < h"
    using p w by (simp add: less_mult_imp_div_less mult.commute)
  moreover have "i div 4 div w * w + i div 4 mod w = i div 4"
    by simp
  ultimately show ?thesis
    using w by simp
qed

lemma canvasPixel_nat:
  "X < cv_width c \<Longrightarrow> Y < cv_height c \<Longrightarrow>
     canvasPixel c (int X) (int Y) k
       = (if k = 3 then rd (cv_pixels c) ((Y * cv_width c + X) * 4 + 3)
          else unpremultiply (rd (cv_pixels c) ((Y * cv_width c + X) * 4 + 3))
                 (rd (cv_pixels c) ((Y * cv_width c + X) * 4 + k)))"
  by (simp add: canvasPixel_def Let_def)

lemma canvasPixel_stable:
  "k \<noteq> 3 \<Longrightarrow>
     unpremultiply (canvasPixel c x y 3) (premultiply (canvasPixel c x y 3) (canvasPixel c x y k))
       = canvasPixel c x y k"
  by (simp add: canvasPixel_def Let_def unpremultiply_premultiply) (simp add: unpremultiply_def)

lemma quantise_length [simp]: "length (quantise d) = length d"
  by (simp add: quantise_def)

lemma quantise_nth:
  "i < length d \<Longrightarrow> quantise d ! i
     = (if i mod 4 = 3 then d ! i
        else unpremultiply (d ! (i div 4 * 4 + 3)) (premultiply (d ! (i div 4 * 4 + 3)) (d ! i)))"
  by (simp add: quantise_def)

lemma alpha_index:
  fixes i :: nat
  assumes "i < n * 4"
  shows "i div 4 * 4 + 3 < n * 4 \<and> (i div 4 * 4 + 3) div 4 = i div 4 \<and> (i div 4 * 4 + 3) mod 4 = 3
           \<and> i div 4 * 4 + i mod 4 = i"
proof -
  have "i div 4 < n"
    using assms by simp
  then have "Suc (i div 4) * 4 \<le> n * 4"
    by (simp only: Suc_le_eq [symmetric] mult_le_cancel2) simp
  then have "i div 4 * 4 + 3 < n * 4"
    by simp
  moreover have "(i div 4 * 4 + 3) div 4 = i div 4 \<and> (i div 4 * 4 + 3) mod 4 = 3"
    by (rule byte_index) simp
  ultimately show ?thesis
    by simp
qed

text \<open>What \<open>getImageData\<close> returns is left as it is by a write followed by a read.\<close>

lemma getImageData_stable:
  assumes g: "getImageData c sx sy sw sh = Inr img"
  shows "quantise (data img) = data img"
proof -
  define w h left top where "w = nat \<bar>sw\<bar>" and "h = nat \<bar>sh\<bar>"
    and "left = min sx (sx + sw)" and "top = min sy (sy + sh)"
  define px where "px = (\<lambda>i. canvasPixel c (left + int (i div 4 mod w)) (top + int (i div 4 div w)) (i mod 4))"
  have d: "data img = map px [0..<w * h * 4]"
    using g by (auto simp: getImageData_def Let_def w_def h_def left_def top_def px_def
        split: if_splits)
  show ?thesis
  proof (rule nth_equalityI)
    show "length (quantise (data img)) = length (data img)"
      by simp
  next
    fix i
    assume "i < length (quantise (data img))"
    then have i: "i < w * h * 4"
      by (simp add: d)
    note ai = alpha_index [OF i]
    have di: "data img ! i = px i"
      using i by (simp add: d)
    have da: "data img ! (i div 4 * 4 + 3) = px (i div 4 * 4 + 3)"
      using ai by (simp add: d)
    have pa: "px (i div 4 * 4 + 3)
        = canvasPixel c (left + int (i div 4 mod w)) (top + int (i div 4 div w)) 3"
      unfolding px_def using ai by (simp only:)
    show "quantise (data img) ! i = data img ! i"
    proof (cases "i mod 4 = 3")
      case True
      then show ?thesis
        using i by (simp add: quantise_nth d)
    next
      case False
      have "quantise (data img) ! i
          = unpremultiply (data img ! (i div 4 * 4 + 3))
              (premultiply (data img ! (i div 4 * 4 + 3)) (data img ! i))"
        using i False by (simp add: quantise_nth d)
      also have "\<dots> = px i"
        unfolding da pa di unfolding px_def using False by (rule canvasPixel_stable)
      finally show ?thesis
        by (simp only: di)
    qed
  qed
qed

text \<open>
  Pixelating what has been pixelated, written and read back gives the pixelated data
  again: the colour of a block is taken at its top-left pixel, which holds its own colour
  under its own alpha.
\<close>

lemma pixelated_quantise:
  assumes ps: "0 < ps" and st: "quantise d = d" and len: "length d = n * 4"
  shows "pixelated ps w (quantise (pixelated ps w d)) = pixelated ps w d"
proof (rule nth_equalityI)
  show "length (pixelated ps w (quantise (pixelated ps w d))) = length (pixelated ps w d)"
    by simp
next
  fix i
  assume "i < length (pixelated ps w (quantise (pixelated ps w d)))"
  then have i: "i < length d"
    by simp
  show "pixelated ps w (quantise (pixelated ps w d)) ! i = pixelated ps w d ! i"
  proof (cases "i mod 4 = 3")
    case True
    then show ?thesis
      using i by (simp add: pixelated_nth quantise_nth)
  next
    case False
    define o' where "o' = blockOrigin ps w (i div 4)"
    define j where "j = o' * 4 + i mod 4"
    have m: "i mod 4 < 4"
      by simp
    have jd: "j div 4 = o'" and jm: "j mod 4 = i mod 4"
      using byte_index [OF m, of o'] by (simp_all add: j_def)
    have "o' \<le> i div 4"
      unfolding o'_def by (rule blockOrigin_le)
    moreover have "i div 4 < n"
      using i len by simp
    ultimately have o: "o' < n"
      by simp
    then have j: "j < length d" and a: "o' * 4 + 3 < length d"
      using m by (simp_all add: j_def len)
    have am: "(o' * 4 + 3) mod 4 = 3"
      by simp
    have oo: "blockOrigin ps w o' = o'"
      unfolding o'_def using ps by (rule blockOrigin_idem)
    have pj: "pixelated ps w d ! j = d ! j"
      using j False by (simp add: pixelated_nth jd jm oo) (simp add: j_def)
    have pa: "pixelated ps w d ! (o' * 4 + 3) = d ! (o' * 4 + 3)"
      using a by (simp add: pixelated_nth)
    have "pixelated ps w (quantise (pixelated ps w d)) ! i = quantise (pixelated ps w d) ! j"
      using i False by (simp add: pixelated_nth o'_def j_def)
    also have "\<dots> = unpremultiply (d ! (o' * 4 + 3)) (premultiply (d ! (o' * 4 + 3)) (d ! j))"
      using j False by (simp add: quantise_nth jd jm pj pa)
    also have "\<dots> = quantise d ! j"
      using j False by (simp add: quantise_nth jd jm)
    also have "\<dots> = d ! j"
      by (simp only: st)
    also have "\<dots> = pixelated ps w d ! i"
      using i False by (simp add: pixelated_nth o'_def j_def)
    finally show ?thesis .
  qed
qed

lemma canvas_read_back:
  assumes wf: "wellFormed c"
    and inb: "0 \<le> dx" "dx + int (width img) \<le> int (cv_width c)"
      "0 \<le> dy" "dy + int (height img) \<le> int (cv_height c)"
    and len: "length (data img) = width img * height img * 4"
    and i: "i < width img * height img * 4"
  shows "canvasPixel (putImageData c img dx dy) (dx + int (i div 4 mod width img))
           (dy + int (i div 4 div width img)) (i mod 4) = quantise (data img) ! i"
proof -
  let ?col = "i div 4 mod width img" and ?row = "i div 4 div width img"
  let ?X = "nat dx + ?col" and ?Y = "nat dy + ?row"
  let ?c1 = "putImageData c img dx dy"
  define p where "p = ?Y * cv_width c + ?X"
  note ic = image_coords [OF i]
  note ai = alpha_index [OF i]
  have X: "?X < cv_width c" and Y: "?Y < cv_height c"
    using ic inb by linarith+
  have xy: "dx + int ?col = int ?X" "dy + int ?row = int ?Y"
    using inb by simp_all
  have "(?Y * cv_width c + ?X) * 4 + 3 < cv_width c * cv_height c * 4"
    using X Y by (rule pixel_in_range)
  then have j3: "p * 4 + 3 < length (cv_pixels c)"
    using wf by (simp add: wellFormed_def p_def)
  have pd: "p div cv_width c = ?Y" and pm: "p mod cv_width c = ?X"
    using pixel_index [OF X, of ?Y] by (simp_all add: p_def)
  have q: "int ?X - dx = int ?col" "int ?Y - dy = int ?row"
    using inb by simp_all
  have inr: "0 \<le> int ?col \<and> int ?col < int (width img) \<and> 0 \<le> int ?row \<and> int ?row < int (height img)"
    using ic by simp
  have i4: "?row * width img + ?col = i div 4"
    by simp
  have wr: "cv_pixels ?c1 ! (p * 4 + k)
      = (if k = 3 then data img ! (i div 4 * 4 + 3)
         else premultiply (data img ! (i div 4 * 4 + 3)) (data img ! (i div 4 * 4 + k)))"
    if k: "k < 4" for k
  proof -
    have j: "p * 4 + k < length (cv_pixels c)"
      using j3 k by simp
    have jd: "(p * 4 + k) div 4 = p" and jm: "(p * 4 + k) mod 4 = k"
      using byte_index [OF k, of p] by simp_all
    have "i div 4 * 4 + 3 < length (data img)" "i div 4 * 4 + k < length (data img)"
      using ai k len by simp_all
    then have r: "rd (data img) (i div 4 * 4 + 3) = data img ! (i div 4 * 4 + 3)"
        "rd (data img) (i div 4 * 4 + k) = data img ! (i div 4 * 4 + k)"
      by (simp_all add: rd_def)
    show ?thesis
      by (simp only: putImageData_nth [OF j] jd jm pd pm q inr nat_int i4 r if_True simp_thms)
  qed
  have rdj: "rd (cv_pixels ?c1) (p * 4 + k) = cv_pixels ?c1 ! (p * 4 + k)" if k: "k < 4" for k
    using j3 k by (simp add: rd_def)
  have m: "i mod 4 < 4" and three: "(3::nat) < 4"
    by simp_all
  have "canvasPixel ?c1 (dx + int ?col) (dy + int ?row) (i mod 4)
      = canvasPixel ?c1 (int ?X) (int ?Y) (i mod 4)"
    by (simp only: xy)
  also have "\<dots> = (if i mod 4 = 3 then rd (cv_pixels ?c1) (p * 4 + 3)
          else unpremultiply (rd (cv_pixels ?c1) (p * 4 + 3)) (rd (cv_pixels ?c1) (p * 4 + i mod 4)))"
    using canvasPixel_nat [of ?X ?c1 ?Y "i mod 4"] X Y
    by (simp only: putImageData_dims p_def)
  also have "\<dots> = (if i mod 4 = 3 then data img ! (i div 4 * 4 + 3)
          else unpremultiply (data img ! (i div 4 * 4 + 3))
                 (premultiply (data img ! (i div 4 * 4 + 3)) (data img ! (i div 4 * 4 + i mod 4))))"
    by (simp add: rdj [OF m] rdj [OF three] wr [OF m] wr [OF three] del: distrib_right_numeral)
  also have "\<dots> = (if i mod 4 = 3 then data img ! i
          else unpremultiply (data img ! (i div 4 * 4 + 3))
                 (premultiply (data img ! (i div 4 * 4 + 3)) (data img ! i)))"
  proof (cases "i mod 4 = 3")
    case True
    with ai have "i div 4 * 4 + 3 = i"
      by (simp only:)
    with True show ?thesis
      by (simp only: if_True)
  next
    case False
    from ai have "i div 4 * 4 + i mod 4 = i"
      by (simp only:)
    with False show ?thesis
      by (simp only: if_False)
  qed
  also have "\<dots> = quantise (data img) ! i"
    using i len by (simp only: quantise_nth)
  finally show ?thesis .
qed

lemma getImageData_putImageData:
  assumes wf: "wellFormed c"
    and inb: "0 \<le> dx" "dx + int (width img) \<le> int (cv_width c)"
      "0 \<le> dy" "dy + int (height img) \<le> int (cv_height c)"
    and pos: "0 < width img" "0 < height img"
    and len: "length (data img) = width img * height img * 4"
    and rng: "inLongRange dx" "inLongRange dy" "inLongRange (int (width img))"
      "inLongRange (int (height img))"
    and lim: "width img * height img * 4 \<le> cv_limit c"
  shows "getImageData (putImageData c img dx dy) dx dy (int (width img)) (int (height img))
           = Inr (img\<lparr>data := quantise (data img)\<rparr>)"
proof -
  have "map (\<lambda>i. canvasPixel (putImageData c img dx dy) (dx + int (i div 4 mod width img))
                  (dy + int (i div 4 div width img)) (i mod 4))
          [0..<width img * height img * 4] = quantise (data img)"
  proof (rule nth_equalityI)
    show "length (map (\<lambda>i. canvasPixel (putImageData c img dx dy) (dx + int (i div 4 mod width img))
                  (dy + int (i div 4 div width img)) (i mod 4))
          [0..<width img * height img * 4]) = length (quantise (data img))"
      using len by simp
  next
    fix i
    assume "i < length (map (\<lambda>i. canvasPixel (putImageData c img dx dy)
                  (dx + int (i div 4 mod width img))
                  (dy + int (i div 4 div width img)) (i mod 4))
          [0..<width img * height img * 4])"
    then have i: "i < width img * height img * 4"
      by simp
    show "map (\<lambda>i. canvasPixel (putImageData c img dx dy) (dx + int (i div 4 mod width img))
                  (dy + int (i div 4 div width img)) (i mod 4))
          [0..<width img * height img * 4] ! i = quantise (data img) ! i"
      using canvas_read_back [OF wf inb len i] i by simp
  qed
  moreover have "min dx (dx + int (width img)) = dx" "min dy (dy + int (height img)) = dy"
    by simp_all
  ultimately show ?thesis
    using pos rng lim by (simp add: getImageData_def Let_def)
qed

text \<open>
  A box inside the bitmap, redacted: when the redaction returns a canvas, the same
  redaction on that canvas returns it unchanged.
\<close>

lemma blurRegion_twice:
  assumes ps: "0 < ps" and wf: "wellFormed c" and inb: "inBounds c box"
    and r: "blurRegion ps c box = Some (Inr c1)"
  shows "blurRegion ps c1 box = Some (Inr c1) \<and> wellFormed c1
           \<and> cv_width c1 = cv_width c \<and> cv_height c1 = cv_height c"
proof -
  let ?w = "x1 box - x0 box" and ?h = "y1 box - y0 box"
  have rb: "readable c box"
  proof (rule ccontr)
    assume "\<not> readable c box"
    from blurRegion_error [OF this, of ps] r show False
      by simp
  qed
  obtain img where g: "getImageData c (x0 box) (y0 box) ?w ?h = Inr img"
    and l: "length (data img) = width img * height img * 4"
    and r1: "blurRegion ps c box
        = Some (Inr (putImageData c (img\<lparr>data := pixelated ps (width img) (data img)\<rparr>)
                       (x0 box) (y0 box)))"
    using blurRegion_ok [OF ps rb] by blast
  let ?img1 = "img\<lparr>data := pixelated ps (width img) (data img)\<rparr>"
  let ?c1 = "putImageData c ?img1 (x0 box) (y0 box)"
  have c1: "c1 = ?c1"
    using r r1 by simp
  have wh: "width img = nat ?w" "height img = nat ?h"
    using g inb by (auto simp: getImageData_def Let_def inBounds_def split: if_splits)
  have iw: "int (width img) = ?w" "int (height img) = ?h"
    using wh inb by (simp_all add: inBounds_def)
  have wf1: "wellFormed ?c1"
    using wf by (rule putImageData_wellFormed)
  have st: "quantise (data img) = data img"
    using g by (rule getImageData_stable)
  have "getImageData ?c1 (x0 box) (y0 box) (int (width ?img1)) (int (height ?img1))
      = Inr (?img1\<lparr>data := quantise (data ?img1)\<rparr>)"
    using inb wh l rb
    by (intro getImageData_putImageData [OF wf]) (simp_all add: inBounds_def readable_def longArgs_def)
  then have g1: "getImageData ?c1 (x0 box) (y0 box) ?w ?h
      = Inr (img\<lparr>data := quantise (pixelated ps (width img) (data img))\<rparr>)"
    by (simp add: iw [symmetric])
  let ?img2 = "img\<lparr>data := quantise (pixelated ps (width img) (data img))\<rparr>"
  have l2: "length (data ?img2) = width ?img2 * height ?img2 * 4"
    using l by simp
  have "pixelated ps (width img) (quantise (pixelated ps (width img) (data img)))
      = pixelated ps (width img) (data img)"
    using ps st l by (rule pixelated_quantise)
  then have "pixelate_priv ?img2 ps = Some ?img1"
    using pixelate_priv_pixelated [OF ps l2] by simp
  then have "blurRegion ps ?c1 box = Some (Inr (putImageData ?c1 ?img1 (x0 box) (y0 box)))"
    by (simp add: blurRegion_def g1 Let_def)
  then have "blurRegion ps ?c1 box = Some (Inr ?c1)"
    by (simp only: putImageData_twice)
  with wf1 show ?thesis
    unfolding c1 by simp
qed

lemma blurRegion_outside:
  assumes ps: "0 < ps" and wf: "wellFormed c" and rb: "readable c box"
    and pos: "x0 box < x1 box" "y0 box < y1 box"
    and out: "int (cv_width c) \<le> x0 box \<or> x1 box \<le> 0 \<or> int (cv_height c) \<le> y0 box \<or> y1 box \<le> 0"
  shows "blurRegion ps c box = Some (Inr c)"
proof -
  obtain img where g: "getImageData c (x0 box) (y0 box) (x1 box - x0 box) (y1 box - y0 box) = Inr img"
    and r: "blurRegion ps c box
        = Some (Inr (putImageData c (img\<lparr>data := pixelated ps (width img) (data img)\<rparr>)
                       (x0 box) (y0 box)))"
    using blurRegion_ok [OF ps rb] by blast
  have wh: "int (width img) = x1 box - x0 box" "int (height img) = y1 box - y0 box"
    using g pos by (auto simp: getImageData_def Let_def split: if_splits)
  have "putImageData c (img\<lparr>data := pixelated ps (width img) (data img)\<rparr>) (x0 box) (y0 box) = c"
    using out wh by (intro putImageData_outside [OF wf]) auto
  with r show ?thesis
    by simp
qed

lemma blurRegion_first_error:
  "\<not> longArgs box \<Longrightarrow> blurRegion ps c box = Some (Inl TypeError)"
  "longArgs box \<Longrightarrow> x1 box = x0 box \<or> y1 box = y0 box \<Longrightarrow>
     blurRegion ps c box = Some (Inl IndexSizeError)"
  "longArgs box \<Longrightarrow> x1 box \<noteq> x0 box \<Longrightarrow> y1 box \<noteq> y0 box \<Longrightarrow>
     cv_limit c < nat \<bar>x1 box - x0 box\<bar> * nat \<bar>y1 box - y0 box\<bar> * 4 \<Longrightarrow>
     blurRegion ps c box = Some (Inl RangeError)"
  by (auto simp: blurRegion_def getImageData_def longArgs_def Let_def)

lemmas image_eval = blurRegions_def blurRegion_def getImageData_def putImageData_def canvasPixel_def
  rd_def pixelated_def blockOrigin_def twoPixels_def faintPixels_def boxAt_def inBounds_def
  wellFormed_def readable_def longArgs_def inLongRange_def premultiply_def unpremultiply_def
  Let_def upt_rec

text \<open>
  What is written is not what is read back when the pixel is not opaque: the colour
  (200, 100, 50) written with alpha 3 is stored as (2, 1, 1) and reads as (170, 85, 85).
\<close>

lemma read_back_example:
  "putImageData faintPixels \<lparr>width = 1, height = 1, data = [200, 100, 50, 3]\<rparr> 0 0
     = faintPixels\<lparr>cv_pixels := [2, 1, 1, 3, 0, 1, 0, 1]\<rparr>"
  "getImageData faintPixels 0 0 1 1 = Inr \<lparr>width = 1, height = 1, data = [170, 85, 85, 3]\<rparr>"
  by (simp_all add: image_eval)

text \<open>
  A box given with its corners in the other order, from (0, 0) to (-2, 1): the pixels are
  read to the left of the image, where there are none, and written from (0, 0) on, so a
  box that covers no pixel of the image clears both pixels of the image.
\<close>

lemma reversed_box_example:
  "blurRegions (Some twoPixels) [boxAt 0 0 (-2) 1] 20
     = Some (Inr (twoPixels\<lparr>cv_pixels := [0, 0, 0, 0, 0, 0, 0, 0]\<rparr>))"
  by (simp add: image_eval pixelate_priv_pixelated)

text \<open>
  C5, as stated, fails. On a canvas of 2 by 1 pixels: the box from (5, 5) to (7, 7) lies
  outside the image, and \<open>blurRegions\<close> returns normally with the image unchanged, no
  error; the box from (-1, 0) to (1, 1) reaches over the left edge, its corners are not
  clamped, the block colour is taken at (-1, 0), outside the image, and the pixel at
  (0, 0) becomes black, where a region clamped to the image would hold that pixel alone
  and leave its colour (10, 20, 30).
\<close>

theorem blurRegions_outside_counterexample:
  "\<not> inBounds twoPixels (b_bbox (boxAt 5 5 7 7))
   \<and> blurRegions (Some twoPixels) [boxAt 5 5 7 7] 20 = Some (Inr twoPixels)
   \<and> \<not> inBounds twoPixels (b_bbox (boxAt (-1) 0 1 1))
   \<and> blurRegions (Some twoPixels) [boxAt (-1) 0 1 1] 20
       = Some (Inr (twoPixels\<lparr>cv_pixels := [0, 0, 0, 255, 40, 50, 60, 255]\<rparr>))"
  by (simp add: image_eval pixelate_priv_pixelated)

text \<open>
  C5, amended. \<open>blurRegions\<close> neither clamps the corners of a box nor checks them against
  the image. On an initialised canvas, with a block size of at least 1, a list of boxes
  is processed without error, the image keeping its dimensions, when every box is one
  that \<open>getImageData\<close> accepts, wherever it lies: \<open>x0\<close>, \<open>y0\<close>, \<open>x1 - x0\<close> and \<open>y1 - y0\<close> in
  the signed 32-bit range, \<open>x1 - x0\<close> and \<open>y1 - y0\<close> not zero, and image data of
  \<open>|x1 - x0|\<close> by \<open>|y1 - y0|\<close> pixels that the runtime allocates. When some box is not
  such a box, the call ends with an error of \<open>getImageData\<close>; for the first box it is a
  \<open>TypeError\<close> when a value is out of range, else an \<open>IndexSizeError\<close> when the width or
  the height is zero, else a \<open>RangeError\<close>. An accepted box with \<open>x0 < x1\<close> and \<open>y0 < y1\<close>
  that lies wholly outside the image leaves the image unchanged. When \<open>ctx\<close> is null the
  error is the one of the canvas that was not initialised.
\<close>

theorem blurRegions_unchecked:
  "0 < ps \<Longrightarrow>
   ((\<forall>b \<in> set boxes. readable c (b_bbox b)) \<longrightarrow>
      (\<exists>c'. blurRegions (Some c) boxes ps = Some (Inr c') \<and> cv_width c' = cv_width c
           \<and> cv_height c' = cv_height c \<and> length (cv_pixels c') = length (cv_pixels c)))
   \<and> ((\<exists>b \<in> set boxes. \<not> readable c (b_bbox b)) \<longrightarrow>
        blurRegions (Some c) boxes ps = Some (Inl TypeError)
        \<or> blurRegions (Some c) boxes ps = Some (Inl IndexSizeError)
        \<or> blurRegions (Some c) boxes ps = Some (Inl RangeError))
   \<and> (\<forall>b bs.
        (\<not> longArgs (b_bbox b) \<longrightarrow> blurRegions (Some c) (b # bs) ps = Some (Inl TypeError))
        \<and> (longArgs (b_bbox b) \<and> (x1 (b_bbox b) = x0 (b_bbox b) \<or> y1 (b_bbox b) = y0 (b_bbox b))
             \<longrightarrow> blurRegions (Some c) (b # bs) ps = Some (Inl IndexSizeError))
        \<and> (longArgs (b_bbox b) \<and> x1 (b_bbox b) \<noteq> x0 (b_bbox b) \<and> y1 (b_bbox b) \<noteq> y0 (b_bbox b)
             \<and> cv_limit c < nat \<bar>x1 (b_bbox b) - x0 (b_bbox b)\<bar> * nat \<bar>y1 (b_bbox b) - y0 (b_bbox b)\<bar> * 4
             \<longrightarrow> blurRegions (Some c) (b # bs) ps = Some (Inl RangeError)))
   \<and> (\<forall>b. wellFormed c \<and> readable c (b_bbox b)
          \<and> x0 (b_bbox b) < x1 (b_bbox b) \<and> y0 (b_bbox b) < y1 (b_bbox b)
          \<and> (int (cv_width c) \<le> x0 (b_bbox b) \<or> x1 (b_bbox b) \<le> 0
              \<or> int (cv_height c) \<le> y0 (b_bbox b) \<or> y1 (b_bbox b) \<le> 0)
        \<longrightarrow> blurRegions (Some c) [b] ps = Some (Inr c))
   \<and> blurRegions None boxes ps = Some (Inl CanvasNotInitialised)"
proof -
  assume ps: "0 < ps"
  have c1: "(\<forall>b \<in> set boxes. readable c (b_bbox b)) \<longrightarrow>
      (\<exists>c'. blurRegions (Some c) boxes ps = Some (Inr c') \<and> cv_width c' = cv_width c
           \<and> cv_height c' = cv_height c \<and> length (cv_pixels c') = length (cv_pixels c))"
    using blurEach_ok [OF ps, of boxes c] by (simp add: blurRegions_def)
  have c2: "(\<exists>b \<in> set boxes. \<not> readable c (b_bbox b)) \<longrightarrow>
        blurRegions (Some c) boxes ps = Some (Inl TypeError)
        \<or> blurRegions (Some c) boxes ps = Some (Inl IndexSizeError)
        \<or> blurRegions (Some c) boxes ps = Some (Inl RangeError)"
    using blurEach_error [OF ps, of boxes c] by (simp add: blurRegions_def)
  have c3: "\<forall>b bs.
        (\<not> longArgs (b_bbox b) \<longrightarrow> blurRegions (Some c) (b # bs) ps = Some (Inl TypeError))
        \<and> (longArgs (b_bbox b) \<and> (x1 (b_bbox b) = x0 (b_bbox b) \<or> y1 (b_bbox b) = y0 (b_bbox b))
             \<longrightarrow> blurRegions (Some c) (b # bs) ps = Some (Inl IndexSizeError))
        \<and> (longArgs (b_bbox b) \<and> x1 (b_bbox b) \<noteq> x0 (b_bbox b) \<and> y1 (b_bbox b) \<noteq> y0 (b_bbox b)
             \<and> cv_limit c < nat \<bar>x1 (b_bbox b) - x0 (b_bbox b)\<bar> * nat \<bar>y1 (b_bbox b) - y0 (b_bbox b)\<bar> * 4
             \<longrightarrow> blurRegions (Some c) (b # bs) ps = Some (Inl RangeError))"
    by (simp add: blurRegions_def blurRegion_first_error)
  have c4: "\<forall>b. wellFormed c \<and> readable c (b_bbox b)
          \<and> x0 (b_bbox b) < x1 (b_bbox b) \<and> y0 (b_bbox b) < y1 (b_bbox b)
          \<and> (int (cv_width c) \<le> x0 (b_bbox b) \<or> x1 (b_bbox b) \<le> 0
              \<or> int (cv_height c) \<le> y0 (b_bbox b) \<or> y1 (b_bbox b) \<le> 0)
        \<longrightarrow> blurRegions (Some c) [b] ps = Some (Inr c)"
  proof (intro allI impI)
    fix b :: blurBox
    assume "wellFormed c \<and> readable c (b_bbox b)
          \<and> x0 (b_bbox b) < x1 (b_bbox b) \<and> y0 (b_bbox b) < y1 (b_bbox b)
          \<and> (int (cv_width c) \<le> x0 (b_bbox b) \<or> x1 (b_bbox b) \<le> 0
              \<or> int (cv_height c) \<le> y0 (b_bbox b) \<or> y1 (b_bbox b) \<le> 0)"
    then have "blurRegion ps c (b_bbox b) = Some (Inr c)"
      by (intro blurRegion_outside [OF ps]) simp_all
    then show "blurRegions (Some c) [b] ps = Some (Inr c)"
      by (simp add: blurRegions_def)
  qed
  have c5: "blurRegions None boxes ps = Some (Inl CanvasNotInitialised)"
    by (simp add: blurRegions_def)
  show ?thesis
    by (rule conjI [OF c1 conjI [OF c2 conjI [OF c3 conjI [OF c4 c5]]]])
qed

text \<open>
  On the canvas of 2 by 1 pixels, with block size 20: the two boxes of the
  counterexample, one after the other, give no error and the dimensions are kept; the
  box from (5, 5) to (7, 7) leaves the canvas as it is; a box of width 0 is an
  \<open>IndexSizeError\<close>, a box whose \<open>x1\<close> is 2^31 a \<open>TypeError\<close>, and a box of 1000 by 1000
  pixels, more than the canvas of the example allocates, a \<open>RangeError\<close>.
\<close>

theorem blurRegions_unchecked_witness:
  "(0 < (20::nat) \<and> wellFormed twoPixels
      \<and> readable twoPixels (b_bbox (boxAt 5 5 7 7)) \<and> readable twoPixels (b_bbox (boxAt (-1) 0 1 1)))
   \<and> (\<exists>c'. blurRegions (Some twoPixels) [boxAt 5 5 7 7, boxAt (-1) 0 1 1] 20 = Some (Inr c')
        \<and> cv_width c' = 2 \<and> cv_height c' = 1)
   \<and> blurRegions (Some twoPixels) [boxAt 5 5 7 7] 20 = Some (Inr twoPixels)
   \<and> blurRegions (Some twoPixels) [boxAt 0 0 0 1] 20 = Some (Inl IndexSizeError)
   \<and> blurRegions (Some twoPixels) [boxAt 0 0 2147483648 1] 20 = Some (Inl TypeError)
   \<and> blurRegions (Some twoPixels) [boxAt 0 0 1000 1000] 20 = Some (Inl RangeError)"
proof -
  have p: "0 < (20::nat)"
    by simp
  have wf: "wellFormed twoPixels"
    by (simp add: wellFormed_def twoPixels_def)
  have rb: "readable twoPixels (b_bbox (boxAt 5 5 7 7))" "readable twoPixels (b_bbox (boxAt (-1) 0 1 1))"
    by (simp_all add: readable_def longArgs_def inLongRange_def twoPixels_def boxAt_def)
  note t = blurRegions_unchecked [OF p, of _ twoPixels]
  have h: "\<forall>b \<in> set [boxAt 5 5 7 7, boxAt (-1) 0 1 1]. readable twoPixels (b_bbox b)"
    using rb by simp
  from t [of "[boxAt 5 5 7 7, boxAt (-1) 0 1 1]", THEN conjunct1] h
  obtain c' where r: "blurRegions (Some twoPixels) [boxAt 5 5 7 7, boxAt (-1) 0 1 1] 20 = Some (Inr c')"
    and d: "cv_width c' = cv_width twoPixels" "cv_height c' = cv_height twoPixels"
    by blast
  from d have "cv_width c' = 2" "cv_height c' = 1"
    by (simp_all add: twoPixels_def)
  with r have a: "\<exists>c'. blurRegions (Some twoPixels) [boxAt 5 5 7 7, boxAt (-1) 0 1 1] 20 = Some (Inr c')
        \<and> cv_width c' = 2 \<and> cv_height c' = 1"
    by blast
  have o: "x0 (b_bbox (boxAt 5 5 7 7)) < x1 (b_bbox (boxAt 5 5 7 7))
      \<and> y0 (b_bbox (boxAt 5 5 7 7)) < y1 (b_bbox (boxAt 5 5 7 7))
      \<and> (int (cv_width twoPixels) \<le> x0 (b_bbox (boxAt 5 5 7 7)) \<or> x1 (b_bbox (boxAt 5 5 7 7)) \<le> 0
          \<or> int (cv_height twoPixels) \<le> y0 (b_bbox (boxAt 5 5 7 7))
          \<or> y1 (b_bbox (boxAt 5 5 7 7)) \<le> 0)"
    by (simp add: twoPixels_def boxAt_def)
  note e = t [of "[]", THEN conjunct2, THEN conjunct2]
  have b: "blurRegions (Some twoPixels) [boxAt 5 5 7 7] 20 = Some (Inr twoPixels)"
    using e [THEN conjunct2, THEN conjunct1] wf rb(1) o by blast
  note f = e [THEN conjunct1, rule_format]
  have z: "longArgs (b_bbox (boxAt 0 0 0 1))
      \<and> (x1 (b_bbox (boxAt 0 0 0 1)) = x0 (b_bbox (boxAt 0 0 0 1))
          \<or> y1 (b_bbox (boxAt 0 0 0 1)) = y0 (b_bbox (boxAt 0 0 0 1)))"
    by (simp add: longArgs_def inLongRange_def boxAt_def)
  have i: "blurRegions (Some twoPixels) [boxAt 0 0 0 1] 20 = Some (Inl IndexSizeError)"
    using f [of "boxAt 0 0 0 1" "[]", THEN conjunct2, THEN conjunct1] z by blast
  have "\<not> longArgs (b_bbox (boxAt 0 0 2147483648 1))"
    by (simp add: longArgs_def inLongRange_def boxAt_def)
  with f [of "boxAt 0 0 2147483648 1" "[]", THEN conjunct1]
  have ty: "blurRegions (Some twoPixels) [boxAt 0 0 2147483648 1] 20 = Some (Inl TypeError)"
    by blast
  have "longArgs (b_bbox (boxAt 0 0 1000 1000))
      \<and> x1 (b_bbox (boxAt 0 0 1000 1000)) \<noteq> x0 (b_bbox (boxAt 0 0 1000 1000))
      \<and> y1 (b_bbox (boxAt 0 0 1000 1000)) \<noteq> y0 (b_bbox (boxAt 0 0 1000 1000))
      \<and> cv_limit twoPixels
          < nat \<bar>x1 (b_bbox (boxAt 0 0 1000 1000)) - x0 (b_bbox (boxAt 0 0 1000 1000))\<bar>
            * nat \<bar>y1 (b_bbox (boxAt 0 0 1000 1000)) - y0 (b_bbox (boxAt 0 0 1000 1000))\<bar> * 4"
    by (simp add: longArgs_def inLongRange_def boxAt_def twoPixels_def)
  with f [of "boxAt 0 0 1000 1000" "[]", THEN conjunct2, THEN conjunct2]
  have ra: "blurRegions (Some twoPixels) [boxAt 0 0 1000 1000] 20 = Some (Inl RangeError)"
    by blast
  have w: "0 < (20::nat) \<and> wellFormed twoPixels
      \<and> readable twoPixels (b_bbox (boxAt 5 5 7 7)) \<and> readable twoPixels (b_bbox (boxAt (-1) 0 1 1))"
    using p wf rb by blast
  show ?thesis
    by (rule conjI [OF w conjI [OF a conjI [OF b conjI [OF i conjI [OF ty ra]]]]])
qed

text \<open>
  C6. Redaction is idempotent. For an image data of the right size and a block size of
  at least 1, \<open>_pixelate\<close> returns, every red, green and blue byte of the result is the
  byte of the top-left pixel of its block and the alpha bytes are unchanged, and
  \<open>_pixelate\<close> applied to the result returns the result. For a box inside the bitmap of
  the canvas, which holds premultiplied colour and so does not read back the bytes
  written to a pixel that is not opaque: redacting the box twice in one call of
  \<open>blurRegions\<close> gives what redacting it once gives; on a canvas that a call of
  \<open>blurRegions\<close> on the box has returned, \<open>blurRegions\<close> on the same box changes nothing;
  and the call returns a canvas when \<open>getImageData\<close> accepts the box.
\<close>

theorem redaction_idempotent:
  "1 \<le> ps \<Longrightarrow>
   (length (data img) = width img * height img * 4 \<longrightarrow>
      pixelate_priv img ps = Some (img\<lparr>data := pixelated ps (width img) (data img)\<rparr>)
      \<and> pixelate_priv (img\<lparr>data := pixelated ps (width img) (data img)\<rparr>) ps
          = Some (img\<lparr>data := pixelated ps (width img) (data img)\<rparr>))
   \<and> (wellFormed c \<and> inBounds c (b_bbox b) \<longrightarrow>
        blurRegions (Some c) [b, b] ps = blurRegions (Some c) [b] ps
        \<and> (\<forall>c1. blurRegions (Some c) [b] ps = Some (Inr c1)
              \<longrightarrow> blurRegions (Some c1) [b] ps = Some (Inr c1))
        \<and> (readable c (b_bbox b) \<longrightarrow> (\<exists>c1. blurRegions (Some c) [b] ps = Some (Inr c1))))"
proof -
  assume "1 \<le> ps"
  then have ps: "0 < ps"
    by simp
  have c1: "length (data img) = width img * height img * 4 \<longrightarrow>
      pixelate_priv img ps = Some (img\<lparr>data := pixelated ps (width img) (data img)\<rparr>)
      \<and> pixelate_priv (img\<lparr>data := pixelated ps (width img) (data img)\<rparr>) ps
          = Some (img\<lparr>data := pixelated ps (width img) (data img)\<rparr>)"
  proof
    assume l: "length (data img) = width img * height img * 4"
    let ?img1 = "img\<lparr>data := pixelated ps (width img) (data img)\<rparr>"
    have l1: "length (data ?img1) = width ?img1 * height ?img1 * 4"
      using l by simp
    have "pixelate_priv ?img1 ps = Some ?img1"
      using pixelate_priv_pixelated [OF ps l1] by (simp add: pixelated_idem [OF ps])
    with pixelate_priv_pixelated [OF ps l]
    show "pixelate_priv img ps = Some ?img1 \<and> pixelate_priv ?img1 ps = Some ?img1"
      by simp
  qed
  have c2: "wellFormed c \<and> inBounds c (b_bbox b) \<longrightarrow>
        blurRegions (Some c) [b, b] ps = blurRegions (Some c) [b] ps
        \<and> (\<forall>c1. blurRegions (Some c) [b] ps = Some (Inr c1)
              \<longrightarrow> blurRegions (Some c1) [b] ps = Some (Inr c1))
        \<and> (readable c (b_bbox b) \<longrightarrow> (\<exists>c1. blurRegions (Some c) [b] ps = Some (Inr c1)))"
  proof
    assume "wellFormed c \<and> inBounds c (b_bbox b)"
    then have wf: "wellFormed c" and inb: "inBounds c (b_bbox b)"
      by simp_all
    have again: "blurRegion ps c1 (b_bbox b) = Some (Inr c1)"
      if "blurRegion ps c (b_bbox b) = Some (Inr c1)" for c1
      using blurRegion_twice [OF ps wf inb that] by simp
    have d1: "blurRegions (Some c) [b, b] ps = blurRegions (Some c) [b] ps"
    proof (cases "readable c (b_bbox b)")
      case True
      from blurRegion_ok [OF ps True]
      obtain c1 where r: "blurRegion ps c (b_bbox b) = Some (Inr c1)"
        by blast
      with again [OF r] show ?thesis
        by (simp add: blurRegions_def)
    next
      case False
      from blurRegion_error [OF this, of ps] show ?thesis
        by (auto simp: blurRegions_def)
    qed
    have d2: "\<forall>c1. blurRegions (Some c) [b] ps = Some (Inr c1)
              \<longrightarrow> blurRegions (Some c1) [b] ps = Some (Inr c1)"
    proof (intro allI impI)
      fix c1
      assume "blurRegions (Some c) [b] ps = Some (Inr c1)"
      then have "blurRegion ps c (b_bbox b) = Some (Inr c1)"
        by (simp add: blurRegions_def split: option.splits sum.splits)
      from again [OF this] show "blurRegions (Some c1) [b] ps = Some (Inr c1)"
        by (simp add: blurRegions_def)
    qed
    have d3: "readable c (b_bbox b) \<longrightarrow> (\<exists>c1. blurRegions (Some c) [b] ps = Some (Inr c1))"
    proof
      assume "readable c (b_bbox b)"
      from blurRegion_ok [OF ps this]
      obtain c1 where "blurRegion ps c (b_bbox b) = Some (Inr c1)"
        by blast
      then have "blurRegions (Some c) [b] ps = Some (Inr c1)"
        by (simp add: blurRegions_def)
      then show "\<exists>c1. blurRegions (Some c) [b] ps = Some (Inr c1)"
        by blast
    qed
    show "blurRegions (Some c) [b, b] ps = blurRegions (Some c) [b] ps
        \<and> (\<forall>c1. blurRegions (Some c) [b] ps = Some (Inr c1)
              \<longrightarrow> blurRegions (Some c1) [b] ps = Some (Inr c1))
        \<and> (readable c (b_bbox b) \<longrightarrow> (\<exists>c1. blurRegions (Some c) [b] ps = Some (Inr c1)))"
      by (rule conjI [OF d1 conjI [OF d2 d3]])
  qed
  show ?thesis
    by (rule conjI [OF c1 c2])
qed

text \<open>
  The canvas of two pixels that are almost transparent and the box that covers it, with
  block size 20. The first pixel reads as (170, 85, 85); one redaction writes that colour
  to the second pixel, whose alpha is 1, where it is stored as (1, 0, 0) and would read
  as (255, 0, 0). The box redacted twice gives the same canvas, and so does a second
  call on the canvas that the first call returned.
\<close>

theorem redaction_idempotent_witness:
  "(1 \<le> (20::nat) \<and> wellFormed faintPixels \<and> inBounds faintPixels (b_bbox (boxAt 0 0 2 1))
      \<and> readable faintPixels (b_bbox (boxAt 0 0 2 1)))
   \<and> blurRegions (Some faintPixels) [boxAt 0 0 2 1] 20
       = Some (Inr (faintPixels\<lparr>cv_pixels := [2, 1, 1, 3, 1, 0, 0, 1]\<rparr>))
   \<and> blurRegions (Some faintPixels) [boxAt 0 0 2 1, boxAt 0 0 2 1] 20
       = Some (Inr (faintPixels\<lparr>cv_pixels := [2, 1, 1, 3, 1, 0, 0, 1]\<rparr>))
   \<and> blurRegions (Some (faintPixels\<lparr>cv_pixels := [2, 1, 1, 3, 1, 0, 0, 1]\<rparr>)) [boxAt 0 0 2 1] 20
       = Some (Inr (faintPixels\<lparr>cv_pixels := [2, 1, 1, 3, 1, 0, 0, 1]\<rparr>))"
proof -
  have p: "1 \<le> (20::nat)"
    by simp
  have h: "wellFormed faintPixels \<and> inBounds faintPixels (b_bbox (boxAt 0 0 2 1))"
    by (simp add: wellFormed_def inBounds_def faintPixels_def boxAt_def)
  have rb: "readable faintPixels (b_bbox (boxAt 0 0 2 1))"
    by (simp add: readable_def longArgs_def inLongRange_def faintPixels_def boxAt_def)
  have e: "blurRegions (Some faintPixels) [boxAt 0 0 2 1] 20
       = Some (Inr (faintPixels\<lparr>cv_pixels := [2, 1, 1, 3, 1, 0, 0, 1]\<rparr>))"
    by (simp add: image_eval pixelate_priv_pixelated)
  note t = redaction_idempotent [OF p, of _ faintPixels "boxAt 0 0 2 1", THEN conjunct2, rule_format, OF h]
  from t [THEN conjunct1] e
  have e2: "blurRegions (Some faintPixels) [boxAt 0 0 2 1, boxAt 0 0 2 1] 20
       = Some (Inr (faintPixels\<lparr>cv_pixels := [2, 1, 1, 3, 1, 0, 0, 1]\<rparr>))"
    by simp
  from t [THEN conjunct2, THEN conjunct1, rule_format, OF e]
  have e3: "blurRegions (Some (faintPixels\<lparr>cv_pixels := [2, 1, 1, 3, 1, 0, 0, 1]\<rparr>)) [boxAt 0 0 2 1] 20
       = Some (Inr (faintPixels\<lparr>cv_pixels := [2, 1, 1, 3, 1, 0, 0, 1]\<rparr>))" .
  have w: "1 \<le> (20::nat) \<and> wellFormed faintPixels \<and> inBounds faintPixels (b_bbox (boxAt 0 0 2 1))
      \<and> readable faintPixels (b_bbox (boxAt 0 0 2 1))"
    using p h rb by blast
  show ?thesis
    by (rule conjI [OF w conjI [OF e conjI [OF e2 e3]]])
qed

section \<open>The pipeline: progress events\<close>

lemma emitProgress_fields [simp]:
  "events (emitProgress s p r) = events r @ [\<lparr>step = s, progress = p\<rparr>]"
  "ctx (emitProgress s p r) = ctx r"
  "blurCalls (emitProgress s p r) = blurCalls r"
  "watermarkCalls (emitProgress s p r) = watermarkCalls r"
  by (simp_all add: emitProgress_def)

lemma countStep_emit [simp]:
  "countStep s (emitProgress s' p r) = (if s' = s then Suc (countStep s r) else countStep s r)"
  by (simp add: countStep_def)

lemma countStep_update [simp]:
  "countStep s (r\<lparr>ctx := c\<rparr>) = countStep s r"
  "countStep s (r\<lparr>blurCalls := n\<rparr>) = countStep s r"
  "countStep s (r\<lparr>watermarkCalls := n\<rparr>) = countStep s r"
  "countStep s (r\<lparr>completions := n\<rparr>) = countStep s r"
  "countStep s (r\<lparr>errors := es\<rparr>) = countStep s r"
  by (simp_all add: countStep_def)

lemma countStep_zero: "countStep s r = 0 \<longleftrightarrow> (\<forall>e \<in> set (events r). step e \<noteq> s)"
  by (auto simp: countStep_def filter_empty_conv)

lemma readStage_count:
  assumes "s \<notin> readSteps"
  shows "case readStage lc env fi r of
           Inl (e, r') \<Rightarrow> countStep s r' = countStep s r \<and> blurCalls r' = blurCalls r
         | Inr (ocr, r') \<Rightarrow> countStep s r' = countStep s r \<and> blurCalls r' = blurCalls r"
  using assms
  by (auto simp: readStage_def readSteps_def extractText_def ocrProgress_def Let_def
      split: option.splits)

lemma exportStage_count:
  assumes "s \<notin> exportSteps"
  shows "case exportStage env w opts nlp r of
           Inl (e, r') \<Rightarrow> countStep s r' = countStep s r \<and> blurCalls r' = blurCalls r
         | Inr (res, r') \<Rightarrow> countStep s r' = countStep s r \<and> blurCalls r' = blurCalls r"
  using assms
  by (auto simp: exportStage_def exportSteps_def Let_def)

lemma thrown_fields [simp]:
  "countStep s (snd (thrown e r)) = countStep s r" "blurCalls (snd (thrown e r)) = blurCalls r"
  by (simp_all add: thrown_def)

lemma returned_fields [simp]:
  "countStep s (snd (returned out r)) = countStep s r" "blurCalls (snd (returned out r)) = blurCalls r"
  by (simp_all add: returned_def)

lemma newRun_fields [simp]: "countStep s newRun = 0" "blurCalls newRun = 0"
  by (simp_all add: newRun_def countStep_def)


lemma processFile_plain_count:
  assumes na: "\<not> anonymize opts" and s: "s \<notin> readSteps" "s \<notin> exportSteps"
    and p: "processFile lc nfd env w file opts = Some (out, r)"
  shows "countStep s r = 0 \<and> blurCalls r = 0"
proof (cases "readStage lc env file newRun")
  case (Inl a)
  obtain e r1 where a: "a = (e, r1)"
    by (cases a)
  have "countStep s r1 = 0 \<and> blurCalls r1 = 0"
    using readStage_count [OF s(1), where lc = lc and env = env and fi = "file"
        and r = newRun] Inl a by simp
  moreover have "r = snd (thrown e r1)"
    using p Inl a by (simp add: processFile_def)
  ultimately show ?thesis
    by simp
next
  case (Inr b)
  obtain ocr r1 where b: "b = (ocr, r1)"
    by (cases b)
  have r1: "countStep s r1 = 0 \<and> blurCalls r1 = 0"
    using readStage_count [OF s(1), where lc = lc and env = env and fi = "file"
        and r = newRun] Inr b by simp
  show ?thesis
  proof (cases "extractTextOnly opts")
    case True
    then have "r = snd (returned TextFile r1)"
      using p Inr b by (simp add: processFile_def)
    with r1 show ?thesis
      by simp
  next
    case False
    note x = exportStage_count [OF s(2), where env = env and w = w and opts = opts
        and nlp = None and r = r1]
    show ?thesis
    proof (cases "exportStage env w opts None r1")
      case (Inl c)
      obtain e r2 where c: "c = (e, r2)"
        by (cases c)
      have "r = snd (thrown e r2)"
        using p Inr b False na Inl c by (simp add: processFile_def)
      with x r1 Inl c show ?thesis
        by simp
    next
      case (Inr c)
      obtain res r2 where c: "c = (res, r2)"
        by (cases c)
      have "r = snd (returned (Result res) r2)"
        using p \<open>readStage lc env file newRun = Inr b\<close> b False na Inr c
        by (simp add: processFile_def)
      with x r1 Inr c show ?thesis
        by simp
    qed
  qed
qed

lemma anonymizeStage_skip:
  assumes "\<not> totalPositive (analyzed env (o_text ocr))"
  shows "anonymizeStage lc nfd env opts ocr r0
     = Some (Inr (analyzed env (o_text ocr),
          r0\<lparr>events := events r0 @
               [\<lparr>step = ''nlp_analysis'', progress = lit 65 100\<rparr>,
                \<lparr>step = ''nlp_complete'', progress = lit 7 10\<rparr>,
                \<lparr>step = ''blur_skip'', progress = lit 8 10\<rparr>]\<rparr>))"
  using assms by (simp add: anonymizeStage_def emitProgress_def Let_def)

lemma processFile_skip:
  assumes a: "anonymize opts" "\<not> extractTextOnly opts"
    and rd: "readStage lc env file newRun = Inr (ocr, r0)"
    and z: "\<not> totalPositive (analyzed env (o_text ocr))"
  shows "\<exists>out r. processFile lc nfd env w file opts = Some (out, r)
           \<and> countStep ''blur_skip'' r = 1 \<and> countStep ''blur_start'' r = 0
           \<and> countStep ''blur_complete'' r = 0 \<and> blurCalls r = 0"
proof -
  let ?r1 = "r0\<lparr>events := events r0 @
               [\<lparr>step = ''nlp_analysis'', progress = lit 65 100\<rparr>,
                \<lparr>step = ''nlp_complete'', progress = lit 7 10\<rparr>,
                \<lparr>step = ''blur_skip'', progress = lit 8 10\<rparr>]\<rparr>"
  have n: "''blur_skip'' \<notin> readSteps" "''blur_start'' \<notin> readSteps" "''blur_complete'' \<notin> readSteps"
    "''blur_skip'' \<notin> exportSteps" "''blur_start'' \<notin> exportSteps" "''blur_complete'' \<notin> exportSteps"
    by (simp_all add: readSteps_def exportSteps_def)
  have r0: "countStep ''blur_skip'' r0 = 0" "countStep ''blur_start'' r0 = 0"
    "countStep ''blur_complete'' r0 = 0" "blurCalls r0 = 0"
    using readStage_count [OF n(1), where lc = lc and env = env and fi = "file"
        and r = newRun]
      readStage_count [OF n(2), where lc = lc and env = env and fi = "file"
        and r = newRun]
      readStage_count [OF n(3), where lc = lc and env = env and fi = "file"
        and r = newRun] rd
    by simp_all
  then have r1: "countStep ''blur_skip'' ?r1 = 1" "countStep ''blur_start'' ?r1 = 0"
    "countStep ''blur_complete'' ?r1 = 0" "blurCalls ?r1 = 0"
    by (simp_all add: countStep_def)
  note x = exportStage_count [OF n(4), where env = env and w = w and opts = opts
        and nlp = "Some (analyzed env (o_text ocr))" and r = ?r1]
    exportStage_count [OF n(5), where env = env and w = w and opts = opts
        and nlp = "Some (analyzed env (o_text ocr))" and r = ?r1]
    exportStage_count [OF n(6), where env = env and w = w and opts = opts
        and nlp = "Some (analyzed env (o_text ocr))" and r = ?r1]
  show ?thesis
  proof (cases "exportStage env w opts (Some (analyzed env (o_text ocr))) ?r1")
    case (Inl c)
    obtain e r2 where c: "c = (e, r2)"
      by (cases c)
    have "processFile lc nfd env w file opts = Some (thrown e r2)"
      using a rd Inl c by (simp add: processFile_def anonymizeStage_skip [OF z])
    moreover have "countStep ''blur_skip'' r2 = 1 \<and> countStep ''blur_start'' r2 = 0
        \<and> countStep ''blur_complete'' r2 = 0 \<and> blurCalls r2 = 0"
      using x r1 Inl c by simp
    ultimately show ?thesis
      by (simp add: thrown_def countStep_def)
  next
    case (Inr c)
    obtain res r2 where c: "c = (res, r2)"
      by (cases c)
    have "processFile lc nfd env w file opts = Some (returned (Result res) r2)"
      using a rd Inr c by (simp add: processFile_def anonymizeStage_skip [OF z])
    moreover have "countStep ''blur_skip'' r2 = 1 \<and> countStep ''blur_start'' r2 = 0
        \<and> countStep ''blur_complete'' r2 = 0 \<and> blurCalls r2 = 0"
      using x r1 Inr c by simp
    ultimately show ?thesis
      by (simp add: returned_def countStep_def)
  qed
qed


lemma scaleTo53_unfold:
  "scaleTo53 fuel k x
     = (if fuel = 0 then k else if 2 ^ 52 \<le> x * 2 ^ k then k else scaleTo53 (fuel - 1) (Suc k) x)"
  by (cases fuel) simp_all

lemma floor_rat_numeral: "\<lfloor>numeral a / numeral b :: rat\<rfloor> = numeral a div numeral b"
  by (metis floor_divide_of_int_eq of_int_numeral)

lemmas double_eval = toDouble_def roundHalfEven_def scaleTo53_unfold floor_rat_numeral Let_def

lemma double_02: "lit 2 10 = 3602879701896397 / 18014398509481984"
  by (simp add: lit_def double_eval)

lemma double_04: "lit 4 10 = 3602879701896397 / 9007199254740992"
  by (simp add: lit_def double_eval)

lemma double_06: "lit 6 10 = 5404319552844595 / 9007199254740992"
  by (simp add: lit_def double_eval)

lemma double_ocr_end:
  "dadd (lit 2 10) (dmul 1 (lit 4 10)) = 5404319552844596 / 9007199254740992"
  by (simp add: dadd_def dmul_def double_02 double_04) (simp add: double_eval)

lemma readStage_ok:
  assumes "detectMimeType_priv lc fi = Some m" "prefix (js ''image/'') m \<or> m = js ''application/pdf''"
    and "loadImage env = Some c" "createWorker env" "recognize env = Some ocr"
  shows "\<exists>r'. readStage lc env fi r = Inr (ocr, r') \<and> ctx r' = Some c
     \<and> events r' = events r @
               [\<lparr>step = ''mime_detection'', progress = lit 1 10\<rparr>,
                \<lparr>step = ''image_load'', progress = lit 15 100\<rparr>,
                \<lparr>step = ''ocr_start'', progress = lit 2 10\<rparr>,
                \<lparr>step = ''ocr_processing'', progress = dadd (lit 2 10) (dmul 1 (lit 4 10))\<rparr>,
                \<lparr>step = ''ocr_complete'', progress = lit 6 10\<rparr>]"
  using assms
  by (auto simp: readStage_def extractText_def ocrProgress_def emitProgress_def Let_def)

lemma anonymizeStage_blur:
  assumes "totalPositive (analyzed env (o_text ocr))"
    and "blurRegions (ctx r) (mapEntitiesToWords lc nfd (analyzed env (o_text ocr)) (o_words ocr))
           (blurIntensity opts) = Some (Inr c')"
  shows "\<exists>r'. anonymizeStage lc nfd env opts ocr r = Some (Inr (analyzed env (o_text ocr), r'))
     \<and> events r' = events r @
               [\<lparr>step = ''nlp_analysis'', progress = lit 65 100\<rparr>,
                \<lparr>step = ''nlp_complete'', progress = lit 7 10\<rparr>,
                \<lparr>step = ''blur_start'', progress = lit 75 100\<rparr>,
                \<lparr>step = ''blur_complete'', progress = lit 85 100\<rparr>]"
  using assms by (simp add: anonymizeStage_def emitProgress_def Let_def)

lemma exportStage_ok:
  assumes "exportOk env" "thumbnailOk env"
  shows "\<exists>res r'. exportStage env w opts nlp r = Inr (res, r')
     \<and> events r' = events r
          @ (if w then [\<lparr>step = ''watermark'', progress = lit 9 10\<rparr>] else [])
          @ [\<lparr>step = ''export'', progress = lit 95 100\<rparr>,
             \<lparr>step = ''complete'', progress = 1\<rparr>]"
  using assms by (simp add: exportStage_def emitProgress_def Let_def)

text \<open>
  Every run with \<open>anonymize\<close> set in which entities are found and every collaborator
  succeeds: the events it emits, in order.
\<close>

lemma full_run_events:
  assumes mime: "detectMimeType_priv lc fi = Some m"
      "prefix (js ''image/'') m \<or> m = js ''application/pdf''"
    and coll: "loadImage env = Some c" "createWorker env" "recognize env = Some ocr"
      "exportOk env" "thumbnailOk env"
    and opts: "anonymize opts" "\<not> extractTextOnly opts"
    and found: "totalPositive (analyzed env (o_text ocr))"
    and blur: "blurRegions (Some c) (mapEntitiesToWords lc nfd (analyzed env (o_text ocr)) (o_words ocr))
           (blurIntensity opts) = Some (Inr c')"
  shows "\<exists>res r. processFile lc nfd env w fi opts = Some (Result res, r)
     \<and> events r =
         [\<lparr>step = ''mime_detection'', progress = lit 1 10\<rparr>,
          \<lparr>step = ''image_load'', progress = lit 15 100\<rparr>,
          \<lparr>step = ''ocr_start'', progress = lit 2 10\<rparr>,
          \<lparr>step = ''ocr_processing'', progress = 5404319552844596 / 9007199254740992\<rparr>,
          \<lparr>step = ''ocr_complete'', progress = 5404319552844595 / 9007199254740992\<rparr>,
          \<lparr>step = ''nlp_analysis'', progress = lit 65 100\<rparr>,
          \<lparr>step = ''nlp_complete'', progress = lit 7 10\<rparr>,
          \<lparr>step = ''blur_start'', progress = lit 75 100\<rparr>,
          \<lparr>step = ''blur_complete'', progress = lit 85 100\<rparr>]
         @ (if w then [\<lparr>step = ''watermark'', progress = lit 9 10\<rparr>] else [])
         @ [\<lparr>step = ''export'', progress = lit 95 100\<rparr>,
            \<lparr>step = ''complete'', progress = 1\<rparr>]"
proof -
  let ?nlp = "analyzed env (o_text ocr)"
  obtain r1 where a: "readStage lc env fi newRun = Inr (ocr, r1)" and c1: "ctx r1 = Some c"
    and e1: "events r1 = events newRun @
               [\<lparr>step = ''mime_detection'', progress = lit 1 10\<rparr>,
                \<lparr>step = ''image_load'', progress = lit 15 100\<rparr>,
                \<lparr>step = ''ocr_start'', progress = lit 2 10\<rparr>,
                \<lparr>step = ''ocr_processing'', progress = dadd (lit 2 10) (dmul 1 (lit 4 10))\<rparr>,
                \<lparr>step = ''ocr_complete'', progress = lit 6 10\<rparr>]"
    using readStage_ok [OF mime coll(1,2,3), of newRun] by blast
  have "blurRegions (ctx r1) (mapEntitiesToWords lc nfd ?nlp (o_words ocr)) (blurIntensity opts)
      = Some (Inr c')"
    using blur c1 by simp
  from anonymizeStage_blur [OF found this]
  obtain r2 where b: "anonymizeStage lc nfd env opts ocr r1 = Some (Inr (?nlp, r2))"
    and e2: "events r2 = events r1 @
               [\<lparr>step = ''nlp_analysis'', progress = lit 65 100\<rparr>,
                \<lparr>step = ''nlp_complete'', progress = lit 7 10\<rparr>,
                \<lparr>step = ''blur_start'', progress = lit 75 100\<rparr>,
                \<lparr>step = ''blur_complete'', progress = lit 85 100\<rparr>]"
    by blast
  obtain res r3 where c: "exportStage env w opts (Some ?nlp) r2 = Inr (res, r3)"
    and e3: "events r3 = events r2
          @ (if w then [\<lparr>step = ''watermark'', progress = lit 9 10\<rparr>] else [])
          @ [\<lparr>step = ''export'', progress = lit 95 100\<rparr>,
             \<lparr>step = ''complete'', progress = 1\<rparr>]"
    using exportStage_ok [OF coll(4,5), of w opts "Some ?nlp" r2] by blast
  have p: "processFile lc nfd env w fi opts = Some (returned (Result res) r3)"
    using opts by (simp add: processFile_def a b c)
  have "events (snd (returned (Result res) r3)) = events r3"
    by (simp add: returned_def)
  then have "events (snd (returned (Result res) r3)) =
         [\<lparr>step = ''mime_detection'', progress = lit 1 10\<rparr>,
          \<lparr>step = ''image_load'', progress = lit 15 100\<rparr>,
          \<lparr>step = ''ocr_start'', progress = lit 2 10\<rparr>,
          \<lparr>step = ''ocr_processing'', progress = 5404319552844596 / 9007199254740992\<rparr>,
          \<lparr>step = ''ocr_complete'', progress = 5404319552844595 / 9007199254740992\<rparr>,
          \<lparr>step = ''nlp_analysis'', progress = lit 65 100\<rparr>,
          \<lparr>step = ''nlp_complete'', progress = lit 7 10\<rparr>,
          \<lparr>step = ''blur_start'', progress = lit 75 100\<rparr>,
          \<lparr>step = ''blur_complete'', progress = lit 85 100\<rparr>]
         @ (if w then [\<lparr>step = ''watermark'', progress = lit 9 10\<rparr>] else [])
         @ [\<lparr>step = ''export'', progress = lit 95 100\<rparr>,
            \<lparr>step = ''complete'', progress = 1\<rparr>]"
    by (simp only: e3 e2 e1 double_06 double_ocr_end) (simp add: newRun_def)
  with p show ?thesis
    by (metis prod.collapse fst_conv returned_def)
qed


lemma processFile_plain_returns:
  assumes "\<not> anonymize opts"
  shows "\<exists>out r. processFile lc nfd env w fi opts = Some (out, r)"
proof (cases "readStage lc env fi newRun")
  case (Inl a)
  then show ?thesis
    by (cases a) (simp add: processFile_def thrown_def)
next
  case (Inr b)
  obtain ocr r1 where b: "b = (ocr, r1)"
    by (cases b)
  show ?thesis
  proof (cases "exportStage env w opts None r1")
    case (Inl c)
    with Inr b assms show ?thesis
      by (cases c) (simp add: processFile_def thrown_def returned_def)
  next
    case i: (Inr c)
    with Inr b assms show ?thesis
      by (cases c) (simp add: processFile_def thrown_def returned_def)
  qed
qed

lemma ok_read:
  "\<exists>r0. readStage toLowerCase_ascii (okCollaborators n) pngFile newRun
          = Inr (\<lparr>o_text = js ''Marie Dupont'', o_confidence = 90,
                  o_words = [wordOf ''Marie'', wordOf ''Dupont'']\<rparr>, r0)"
proof -
  have "detectMimeType_priv toLowerCase_ascii pngFile = Some (js ''image/png'')"
    by (simp add: detectMimeType_priv_def pngFile_def js_def)
  moreover have "prefix (js ''image/'') (js ''image/png'') \<or> js ''image/png'' = js ''application/pdf''"
    by (simp add: js_def)
  ultimately show ?thesis
    using readStage_ok [of toLowerCase_ascii pngFile "js ''image/png''" "okCollaborators n" twoPixels
        "\<lparr>o_text = js ''Marie Dupont'', o_confidence = 90,
           o_words = [wordOf ''Marie'', wordOf ''Dupont'']\<rparr>" newRun]
    by (auto simp: okCollaborators_def)
qed

text \<open>
  C7, at a run in which everything succeeds: a PNG file, \<open>anonymize\<close> set, one entity
  found, the watermark required. The progress events are the twelve of the pipeline and
  the last one is \<open>complete\<close> with progress 1, but the event \<open>ocr_processing\<close> carries
  \<open>0.2 + 1 * 0.4\<close>, which in double precision is \<open>0.6000000000000001\<close>
  (5404319552844596 / 2^53), and the next event, \<open>ocr_complete\<close>, carries \<open>0.6\<close>
  (5404319552844595 / 2^53): the progress decreases between the two, so the sequence is
  not non-decreasing.
\<close>

theorem full_run_progress_decreases:
  "\<exists>res r. processFile toLowerCase_ascii normalizeNFD_ascii (okCollaborators (Some 1)) True pngFile
               (optionsOf True) = Some (Result res, r)
     \<and> map step (events r)
         = [''mime_detection'', ''image_load'', ''ocr_start'', ''ocr_processing'', ''ocr_complete'',
            ''nlp_analysis'', ''nlp_complete'', ''blur_start'', ''blur_complete'', ''watermark'',
            ''export'', ''complete'']
     \<and> events r ! 3 = \<lparr>step = ''ocr_processing'', progress = 5404319552844596 / 9007199254740992\<rparr>
     \<and> events r ! 4 = \<lparr>step = ''ocr_complete'', progress = 5404319552844595 / 9007199254740992\<rparr>
     \<and> progress (events r ! 4) < progress (events r ! 3)
     \<and> \<not> sorted (map progress (events r))
     \<and> last (events r) = \<lparr>step = ''complete'', progress = 1\<rparr>"
proof -
  let ?env = "okCollaborators (Some 1)"
  let ?ocr = "\<lparr>o_text = js ''Marie Dupont'', o_confidence = 90,
                o_words = [wordOf ''Marie'', wordOf ''Dupont'']\<rparr>"
  have m: "detectMimeType_priv toLowerCase_ascii pngFile = Some (js ''image/png'')"
    "prefix (js ''image/'') (js ''image/png'') \<or> js ''image/png'' = js ''application/pdf''"
    by (simp_all add: detectMimeType_priv_def pngFile_def js_def)
  have c: "loadImage ?env = Some twoPixels" "createWorker ?env" "recognize ?env = Some ?ocr"
    "exportOk ?env" "thumbnailOk ?env"
    by (simp_all add: okCollaborators_def)
  have o: "anonymize (optionsOf True)" "\<not> extractTextOnly (optionsOf True)"
    by (simp_all add: optionsOf_def)
  have f: "totalPositive (analyzed ?env (o_text ?ocr))"
    by (simp add: totalPositive_def okCollaborators_def)
  have b: "mapEntitiesToWords toLowerCase_ascii normalizeNFD_ascii (analyzed ?env (o_text ?ocr))
        (o_words ?ocr)
      = [boxOf (spanOf ''person'' ''Marie Dupont'') (wordOf ''Marie''),
         boxOf (spanOf ''person'' ''Marie Dupont'') (wordOf ''Dupont'')]"
    by (simp add: okCollaborators_def mapEntitiesToWords_def mapEntity_def mapWord_def
        str_includes_def ascii_eval sublist_code Let_def)
  have "\<exists>c'. blurRegions (Some twoPixels)
        [boxOf (spanOf ''person'' ''Marie Dupont'') (wordOf ''Marie''),
         boxOf (spanOf ''person'' ''Marie Dupont'') (wordOf ''Dupont'')] 20 = Some (Inr c')"
    using blurEach_ok [of 20 "[boxOf (spanOf ''person'' ''Marie Dupont'') (wordOf ''Marie''),
         boxOf (spanOf ''person'' ''Marie Dupont'') (wordOf ''Dupont'')]" twoPixels]
    by (auto simp: blurRegions_def boxOf_def wordOf_def readable_def longArgs_def inLongRange_def
        twoPixels_def)
  then obtain c' where "blurRegions (Some twoPixels)
        (mapEntitiesToWords toLowerCase_ascii normalizeNFD_ascii (analyzed ?env (o_text ?ocr))
           (o_words ?ocr)) (blurIntensity (optionsOf True)) = Some (Inr c')"
    unfolding b by (auto simp: optionsOf_def)
  from full_run_events [OF m c o f this, of True]
  obtain res r where p: "processFile toLowerCase_ascii normalizeNFD_ascii ?env True pngFile
               (optionsOf True) = Some (Result res, r)"
    and e: "events r =
         [\<lparr>step = ''mime_detection'', progress = lit 1 10\<rparr>,
          \<lparr>step = ''image_load'', progress = lit 15 100\<rparr>,
          \<lparr>step = ''ocr_start'', progress = lit 2 10\<rparr>,
          \<lparr>step = ''ocr_processing'', progress = 5404319552844596 / 9007199254740992\<rparr>,
          \<lparr>step = ''ocr_complete'', progress = 5404319552844595 / 9007199254740992\<rparr>,
          \<lparr>step = ''nlp_analysis'', progress = lit 65 100\<rparr>,
          \<lparr>step = ''nlp_complete'', progress = lit 7 10\<rparr>,
          \<lparr>step = ''blur_start'', progress = lit 75 100\<rparr>,
          \<lparr>step = ''blur_complete'', progress = lit 85 100\<rparr>,
          \<lparr>step = ''watermark'', progress = lit 9 10\<rparr>,
          \<lparr>step = ''export'', progress = lit 95 100\<rparr>,
          \<lparr>step = ''complete'', progress = 1\<rparr>]"
    by auto
  have s: "map step (events r)
         = [''mime_detection'', ''image_load'', ''ocr_start'', ''ocr_processing'', ''ocr_complete'',
            ''nlp_analysis'', ''nlp_complete'', ''blur_start'', ''blur_complete'', ''watermark'',
            ''export'', ''complete'']"
    by (simp add: e)
  have e3: "events r ! 3 = \<lparr>step = ''ocr_processing'', progress = 5404319552844596 / 9007199254740992\<rparr>"
    and e4: "events r ! 4 = \<lparr>step = ''ocr_complete'', progress = 5404319552844595 / 9007199254740992\<rparr>"
    by (simp_all add: e)
  have d: "progress (events r ! 4) < progress (events r ! 3)"
    by (simp add: e3 e4)
  have n: "\<not> sorted (map progress (events r))"
  proof
    assume "sorted (map progress (events r))"
    then have "map progress (events r) ! 3 \<le> map progress (events r) ! 4"
      by (rule sorted_nth_mono) (simp_all add: e)
    then have "progress (events r ! 3) \<le> progress (events r ! 4)"
      by (simp add: e)
    with d show False
      by simp
  qed
  have l: "last (events r) = \<lparr>step = ''complete'', progress = 1\<rparr>"
    by (simp add: e)
  show ?thesis
    by (intro exI [of _ res] exI [of _ r] conjI) (fact p s e3 e4 d n l)+
qed

text \<open>
  C8. A run with \<open>anonymize\<close> unset returns and emits no \<open>nlp_analysis\<close>, \<open>nlp_complete\<close>,
  \<open>blur_start\<close>, \<open>blur_complete\<close> or \<open>blur_skip\<close> event, and never calls \<open>blurRegions\<close>,
  however it ends. In a run with \<open>anonymize\<close> set that reaches the anonymisation (the
  file is read, \<open>extractTextOnly\<close> is unset) and in which \<open>analyze\<close> finds no entity
  (\<open>total\<close> is 0 or absent), the anonymisation emits \<open>nlp_analysis\<close>, \<open>nlp_complete\<close> and
  \<open>blur_skip\<close>, leaves the canvas as it was and does not call \<open>blurRegions\<close>; the whole
  run emits exactly one \<open>blur_skip\<close> event, no \<open>blur_start\<close> or \<open>blur_complete\<close> event, and
  never calls \<open>blurRegions\<close>.
\<close>

theorem skip_paths:
  "(\<not> anonymize opts \<and> processFile lc nfd env w fi opts = Some (out, r)
      \<longrightarrow> (\<forall>e \<in> set (events r). step e \<notin> {''nlp_analysis'', ''nlp_complete'', ''blur_start'',
                                               ''blur_complete'', ''blur_skip''})
          \<and> blurCalls r = 0)
   \<and> (\<not> anonymize opts \<longrightarrow> (\<exists>out' r'. processFile lc nfd env w fi opts = Some (out', r')))
   \<and> (anonymize opts \<and> \<not> extractTextOnly opts \<and> readStage lc env fi newRun = Inr (ocr, r0)
        \<and> \<not> totalPositive (analyzed env (o_text ocr))
      \<longrightarrow> (\<exists>r1. anonymizeStage lc nfd env opts ocr r0 = Some (Inr (analyzed env (o_text ocr), r1))
               \<and> ctx r1 = ctx r0 \<and> blurCalls r1 = blurCalls r0
               \<and> map step (events r1)
                   = map step (events r0) @ [''nlp_analysis'', ''nlp_complete'', ''blur_skip''])
          \<and> (\<exists>out' r'. processFile lc nfd env w fi opts = Some (out', r')
               \<and> countStep ''blur_skip'' r' = 1 \<and> countStep ''blur_start'' r' = 0
               \<and> countStep ''blur_complete'' r' = 0 \<and> blurCalls r' = 0))"
proof -
  have c1: "\<not> anonymize opts \<and> processFile lc nfd env w fi opts = Some (out, r)
      \<longrightarrow> (\<forall>e \<in> set (events r). step e \<notin> {''nlp_analysis'', ''nlp_complete'', ''blur_start'',
                                               ''blur_complete'', ''blur_skip''})
          \<and> blurCalls r = 0"
  proof
    assume a: "\<not> anonymize opts \<and> processFile lc nfd env w fi opts = Some (out, r)"
    have z: "countStep s r = 0 \<and> blurCalls r = 0"
      if "s \<in> {''nlp_analysis'', ''nlp_complete'', ''blur_start'', ''blur_complete'', ''blur_skip''}"
      for s
    proof -
      from that have "s \<notin> readSteps" "s \<notin> exportSteps"
        by (auto simp: readSteps_def exportSteps_def)
      with a show ?thesis
        by (intro processFile_plain_count [of opts s lc nfd env w fi out r]) simp_all
    qed
    have "\<forall>e \<in> set (events r). step e \<notin> {''nlp_analysis'', ''nlp_complete'', ''blur_start'',
                                               ''blur_complete'', ''blur_skip''}"
    proof
      fix e
      assume e: "e \<in> set (events r)"
      show "step e \<notin> {''nlp_analysis'', ''nlp_complete'', ''blur_start'', ''blur_complete'',
                        ''blur_skip''}"
      proof
        assume "step e \<in> {''nlp_analysis'', ''nlp_complete'', ''blur_start'', ''blur_complete'',
                        ''blur_skip''}"
        then have "countStep (step e) r = 0"
          using z by blast
        with e show False
          by (auto simp: countStep_zero)
      qed
    qed
    moreover have "blurCalls r = 0"
      using z [of "''blur_skip''"] by simp
    ultimately show "(\<forall>e \<in> set (events r). step e \<notin> {''nlp_analysis'', ''nlp_complete'',
          ''blur_start'', ''blur_complete'', ''blur_skip''}) \<and> blurCalls r = 0"
      by blast
  qed
  have c2: "\<not> anonymize opts \<longrightarrow> (\<exists>out' r'. processFile lc nfd env w fi opts = Some (out', r'))"
    using processFile_plain_returns [of opts lc nfd env w fi] by blast
  have c3: "anonymize opts \<and> \<not> extractTextOnly opts \<and> readStage lc env fi newRun = Inr (ocr, r0)
        \<and> \<not> totalPositive (analyzed env (o_text ocr))
      \<longrightarrow> (\<exists>r1. anonymizeStage lc nfd env opts ocr r0 = Some (Inr (analyzed env (o_text ocr), r1))
               \<and> ctx r1 = ctx r0 \<and> blurCalls r1 = blurCalls r0
               \<and> map step (events r1)
                   = map step (events r0) @ [''nlp_analysis'', ''nlp_complete'', ''blur_skip''])
          \<and> (\<exists>out' r'. processFile lc nfd env w fi opts = Some (out', r')
               \<and> countStep ''blur_skip'' r' = 1 \<and> countStep ''blur_start'' r' = 0
               \<and> countStep ''blur_complete'' r' = 0 \<and> blurCalls r' = 0)"
  proof
    assume a: "anonymize opts \<and> \<not> extractTextOnly opts \<and> readStage lc env fi newRun = Inr (ocr, r0)
        \<and> \<not> totalPositive (analyzed env (o_text ocr))"
    then have z: "\<not> totalPositive (analyzed env (o_text ocr))"
      by simp
    have "\<exists>r1. anonymizeStage lc nfd env opts ocr r0 = Some (Inr (analyzed env (o_text ocr), r1))
               \<and> ctx r1 = ctx r0 \<and> blurCalls r1 = blurCalls r0
               \<and> map step (events r1)
                   = map step (events r0) @ [''nlp_analysis'', ''nlp_complete'', ''blur_skip'']"
      by (simp add: anonymizeStage_skip [OF z])
    moreover have "\<exists>out' r'. processFile lc nfd env w fi opts = Some (out', r')
               \<and> countStep ''blur_skip'' r' = 1 \<and> countStep ''blur_start'' r' = 0
               \<and> countStep ''blur_complete'' r' = 0 \<and> blurCalls r' = 0"
      using a by (intro processFile_skip [of opts lc env fi ocr r0]) simp_all
    ultimately show "(\<exists>r1. anonymizeStage lc nfd env opts ocr r0
                 = Some (Inr (analyzed env (o_text ocr), r1))
               \<and> ctx r1 = ctx r0 \<and> blurCalls r1 = blurCalls r0
               \<and> map step (events r1)
                   = map step (events r0) @ [''nlp_analysis'', ''nlp_complete'', ''blur_skip''])
          \<and> (\<exists>out' r'. processFile lc nfd env w fi opts = Some (out', r')
               \<and> countStep ''blur_skip'' r' = 1 \<and> countStep ''blur_start'' r' = 0
               \<and> countStep ''blur_complete'' r' = 0 \<and> blurCalls r' = 0)"
      by blast
  qed
  show ?thesis
    by (rule conjI [OF c1 conjI [OF c2 c3]])
qed

text \<open>
  Two runs on a PNG file with collaborators that succeed. With \<open>anonymize\<close> unset the run
  returns, with none of the five events and no call of \<open>blurRegions\<close>. With \<open>anonymize\<close>
  set and \<open>total = 0\<close> the run returns with exactly one \<open>blur_skip\<close> event and no call of
  \<open>blurRegions\<close>.
\<close>

theorem skip_paths_witness:
  "(\<exists>out r. processFile toLowerCase_ascii normalizeNFD_ascii (okCollaborators None) False pngFile
               (optionsOf False) = Some (out, r)
       \<and> countStep ''nlp_analysis'' r = 0 \<and> countStep ''blur_start'' r = 0
       \<and> countStep ''blur_complete'' r = 0 \<and> countStep ''blur_skip'' r = 0
       \<and> blurCalls r = 0)
   \<and> (\<exists>out r. processFile toLowerCase_ascii normalizeNFD_ascii (okCollaborators (Some 0)) False
               pngFile (optionsOf True) = Some (out, r)
       \<and> countStep ''blur_skip'' r = 1 \<and> blurCalls r = 0)"
proof -
  have na: "\<not> anonymize (optionsOf False)"
    by (simp add: optionsOf_def)
  from skip_paths [of "optionsOf False" toLowerCase_ascii normalizeNFD_ascii "okCollaborators None"
      False pngFile, THEN conjunct2, THEN conjunct1] na
  obtain out r where p: "processFile toLowerCase_ascii normalizeNFD_ascii (okCollaborators None)
      False pngFile (optionsOf False) = Some (out, r)"
    by blast
  with skip_paths [of "optionsOf False" toLowerCase_ascii normalizeNFD_ascii "okCollaborators None"
      False pngFile out r, THEN conjunct1] na
  have a0: "(\<forall>e \<in> set (events r). step e \<notin> {''nlp_analysis'', ''nlp_complete'', ''blur_start'',
                                                ''blur_complete'', ''blur_skip''})
       \<and> blurCalls r = 0"
    by blast
  then have a: "countStep ''nlp_analysis'' r = 0 \<and> countStep ''blur_start'' r = 0
       \<and> countStep ''blur_complete'' r = 0 \<and> countStep ''blur_skip'' r = 0
       \<and> blurCalls r = 0"
    by (simp add: countStep_zero)
  obtain r0 where rd: "readStage toLowerCase_ascii (okCollaborators (Some 0)) pngFile newRun
          = Inr (\<lparr>o_text = js ''Marie Dupont'', o_confidence = 90,
                  o_words = [wordOf ''Marie'', wordOf ''Dupont'']\<rparr>, r0)"
    using ok_read [of "Some 0"] by blast
  have h: "anonymize (optionsOf True) \<and> \<not> extractTextOnly (optionsOf True)
      \<and> readStage toLowerCase_ascii (okCollaborators (Some 0)) pngFile newRun
          = Inr (\<lparr>o_text = js ''Marie Dupont'', o_confidence = 90,
                  o_words = [wordOf ''Marie'', wordOf ''Dupont'']\<rparr>, r0)
      \<and> \<not> totalPositive (analyzed (okCollaborators (Some 0))
            (o_text \<lparr>o_text = js ''Marie Dupont'', o_confidence = 90,
                  o_words = [wordOf ''Marie'', wordOf ''Dupont'']\<rparr>))"
    using rd by (simp add: optionsOf_def totalPositive_def okCollaborators_def)
  from skip_paths [of "optionsOf True" toLowerCase_ascii normalizeNFD_ascii
      "okCollaborators (Some 0)" False pngFile _ _
      "\<lparr>o_text = js ''Marie Dupont'', o_confidence = 90,
                  o_words = [wordOf ''Marie'', wordOf ''Dupont'']\<rparr>" r0,
      THEN conjunct2, THEN conjunct2] h
  have b: "\<exists>out r. processFile toLowerCase_ascii normalizeNFD_ascii (okCollaborators (Some 0)) False
               pngFile (optionsOf True) = Some (out, r)
       \<and> countStep ''blur_skip'' r = 1 \<and> blurCalls r = 0"
    by blast
  from p a b show ?thesis
    by blast
qed


section \<open>The scan of the sensitive patterns returns with every position reset\<close>

lemma execLoop_returns:
  assumes m: "matcherOk m"
  shows "\<exists>spans. execLoop m ty text li results = Some (spans, 0)"
proof (induction "Suc (length text) - li" arbitrary: li results rule: less_induct)
  case less
  show ?case
  proof (cases "exec m text li")
    case (Pair mt li')
    show ?thesis
    proof (cases mt)
      case None
      then have "li' = 0"
        using Pair by (auto simp: exec_def split: if_splits option.splits)
      with Pair None show ?thesis
        by (subst execLoop_unfold) simp
    next
      case (Some ie)
      obtain i e where ie: "ie = (i, e)"
        by (cases ie)
      have x: "m text li = Some (i, e)" "li' = e" "li \<le> length text"
        using Pair Some ie by (auto simp: exec_def split: if_splits option.splits)
      then have "li \<le> i" "i < e" "e \<le> length text"
        using m by (auto simp: matcherOk_def)
      then have "Suc (length text) - e < Suc (length text) - li"
        by arith
      from less [OF this]
      obtain spans where "execLoop m ty text e
          (results @ [\<lparr>s_type = ty, s_text = take (e - i) (drop i text),
                       s_offset = int i, s_length = e - i\<rparr>]) = Some (spans, 0)"
        by blast
      with Pair Some ie x show ?thesis
        by (subst execLoop_unfold) simp
    qed
  qed
qed

lemma detectEach_returns:
  "(\<forall>p \<in> set ps. matcherOk (r_match p)) \<Longrightarrow>
     \<exists>spans. detectEach ps text results = Some (spans, map (\<lambda>p. p\<lparr>lastIndex := 0\<rparr>) ps)"
proof (induction ps arbitrary: results)
  case Nil
  then show ?case by simp
next
  case (Cons p ps)
  then have "matcherOk (r_match p)"
    by simp
  from execLoop_returns [OF this, of "r_type p" "text" "lastIndex p" results]
  obtain s1 where a: "execLoop (r_match p) (r_type p) text (lastIndex p) results = Some (s1, 0)"
    by blast
  from Cons.prems have "\<forall>p \<in> set ps. matcherOk (r_match p)"
    by simp
  from Cons.IH [OF this, of s1]
  obtain s2 where "detectEach ps text s1 = Some (s2, map (\<lambda>p. p\<lparr>lastIndex := 0\<rparr>) ps)"
    by blast
  with a show ?case
    by simp
qed

lemma reset_fresh: "(\<forall>p \<in> set ps. lastIndex p = 0) \<Longrightarrow> map (\<lambda>p. p\<lparr>lastIndex := 0\<rparr>) ps = ps"
  by (induction ps) simp_all

lemma find_SomeD: "List.find P xs = Some x \<Longrightarrow> P x \<and> x \<in> set xs"
  by (induction xs) (auto split: if_splits)

lemma postalCodeMatcher_ok: "matcherOk postalCodeMatcher"
  unfolding matcherOk_def
proof (intro allI impI)
  fix s start i e
  assume "postalCodeMatcher s start = Some (i, e)"
  then obtain j where f: "List.find (postalCodeAt s) [start..<Suc (length s)] = Some j"
    and ie: "i = j" "e = j + 5"
    by (auto simp: postalCodeMatcher_def)
  from find_SomeD [OF f] have "postalCodeAt s j" "start \<le> j"
    by (simp_all del: upt_Suc)
  with ie show "start \<le> i \<and> i < e \<and> e \<le> length s"
    by (simp add: postalCodeAt_def)
qed

text \<open>
  C10. On a detector whose patterns all have \<open>lastIndex = 0\<close>, as the constructor leaves
  them, and whose matches are never empty, the scan of a text returns, every \<open>exec\<close> loop
  having run until \<open>null\<close> and so reset the \<open>lastIndex\<close> of its pattern to 0; the detector
  is left as it was, and the scan of the same text on the detector as the first call
  left it returns the same sequence of spans.
\<close>

theorem detection_deterministic:
  "(\<forall>p \<in> set patterns. matcherOk (r_match p) \<and> lastIndex p = 0) \<Longrightarrow>
     \<exists>spans patterns1.
        detectSensitiveValues_priv patterns text = Some (spans, patterns1)
        \<and> detectSensitiveValues_priv patterns1 text = Some (spans, patterns1)
        \<and> (\<forall>p \<in> set patterns1. lastIndex p = 0)
        \<and> patterns1 = patterns"
proof -
  assume a: "\<forall>p \<in> set patterns. matcherOk (r_match p) \<and> lastIndex p = 0"
  then have "\<forall>p \<in> set patterns. matcherOk (r_match p)"
    by simp
  from detectEach_returns [OF this, of "text" "[]"]
  obtain spans where "detectEach patterns text []
      = Some (spans, map (\<lambda>p. p\<lparr>lastIndex := 0\<rparr>) patterns)"
    by blast
  moreover have "map (\<lambda>p. p\<lparr>lastIndex := 0\<rparr>) patterns = patterns"
    using a by (intro reset_fresh) simp
  ultimately have "detectSensitiveValues_priv patterns text = Some (spans, patterns)"
    by (simp add: detectSensitiveValues_priv_def)
  with a show ?thesis
    by auto
qed

text \<open>
  The pattern \<open>postalCode\<close> on the text "75011 Paris 69001": the scan finds the two codes,
  at offsets 0 and 12, and scanning again on the same detector finds the same two.
\<close>

theorem detection_deterministic_witness:
  "lastIndex postalCodeRegex = 0
   \<and> detectSensitiveValues_priv [postalCodeRegex] (js ''75011 Paris 69001'')
       = Some ([\<lparr>s_type = ''postalCode'', s_text = js ''75011'', s_offset = 0, s_length = 5\<rparr>,
                \<lparr>s_type = ''postalCode'', s_text = js ''69001'', s_offset = 12, s_length = 5\<rparr>],
               [postalCodeRegex])"
proof -
  have h: "\<forall>p \<in> set [postalCodeRegex]. matcherOk (r_match p) \<and> lastIndex p = 0"
    by (simp add: postalCodeRegex_def postalCodeMatcher_ok)
  from detection_deterministic [OF h, of "js ''75011 Paris 69001''"]
  obtain spans where d: "detectSensitiveValues_priv [postalCodeRegex] (js ''75011 Paris 69001'')
      = Some (spans, [postalCodeRegex])"
    by blast
  have m0: "postalCodeMatcher (js ''75011 Paris 69001'') 0 = Some (0, 5)"
    by (simp add: postalCodeMatcher_def postalCodeAt_def wordBoundary_def wordAt_def isDigit_def
        isWordChar_def js_def upt_rec)
  have m5: "postalCodeMatcher (js ''75011 Paris 69001'') 5 = Some (12, 17)"
    by (simp add: postalCodeMatcher_def postalCodeAt_def wordBoundary_def wordAt_def isDigit_def
        isWordChar_def js_def upt_rec)
  have m17: "postalCodeMatcher (js ''75011 Paris 69001'') 17 = None"
    by (simp add: postalCodeMatcher_def postalCodeAt_def wordBoundary_def wordAt_def isDigit_def
        isWordChar_def js_def upt_rec)
  have l: "length (js ''75011 Paris 69001'') = 17"
    by (simp add: js_def)
  have t0: "take 5 (drop 0 (js ''75011 Paris 69001'')) = js ''75011''"
    and t12: "take 5 (drop 12 (js ''75011 Paris 69001'')) = js ''69001''"
    by (simp_all add: js_def)
  have "execLoop postalCodeMatcher ''postalCode'' (js ''75011 Paris 69001'') 0 []
      = Some ([\<lparr>s_type = ''postalCode'', s_text = js ''75011'', s_offset = 0, s_length = 5\<rparr>,
                \<lparr>s_type = ''postalCode'', s_text = js ''69001'', s_offset = 12, s_length = 5\<rparr>], 0)"
    apply (subst execLoop_unfold)
    apply (simp only: exec_def l m0)
    apply simp
    apply (subst execLoop_unfold)
    apply (simp only: exec_def l m5)
    apply simp
    apply (subst execLoop_unfold)
    apply (simp only: exec_def l m17)
    apply (simp add: t0 [simplified] t12)
    done
  then have "detectSensitiveValues_priv [postalCodeRegex] (js ''75011 Paris 69001'')
      = Some ([\<lparr>s_type = ''postalCode'', s_text = js ''75011'', s_offset = 0, s_length = 5\<rparr>,
                \<lparr>s_type = ''postalCode'', s_text = js ''69001'', s_offset = 12, s_length = 5\<rparr>],
              [postalCodeRegex])"
    by (simp add: detectSensitiveValues_priv_def postalCodeRegex_def)
  moreover have "lastIndex postalCodeRegex = 0"
    using h by simp
  ultimately show ?thesis
    using d by simp
qed


end
